theory Spec2Isabelle
  imports Main
begin

section \<open>Data model of timeshift.go\<close>

text \<open>
  The package parses a pattern such as \<open>Y+1 M2 D$1 W^2 w0 h-6\<close> into a \<open>TimeShift\<close>
  (function \<open>New\<close>) and applies it to a timestamp (method \<open>Exec\<close>).
  Go strings are byte strings and are modelled as \<open>string\<close>; Go's \<open>int\<close> is 64 bits wide
  on the platforms the package is built for, and every value that \<open>New\<close> stores is bounded by
  \<open>2^31 - 1\<close> in magnitude, so the arithmetic of the package never leaves the 64-bit range
  for the inputs considered here and is modelled on \<open>int\<close>.
\<close>

record partDef =
  active :: bool
  val :: int
  absolute :: bool
  fromBegin :: bool
  fromEnd :: bool

record TimeShift =
  empty :: bool
  year :: partDef
  month :: partDef
  day :: partDef
  week :: partDef
  weekday :: partDef
  hour :: partDef
  minute :: partDef
  second :: partDef

text \<open>The zero values Go gives to a freshly allocated struct.\<close>

definition zeroPartDef :: partDef where
  "zeroPartDef = \<lparr>active = False, val = 0, absolute = False, fromBegin = False, fromEnd = False\<rparr>"

definition zeroTimeShift :: TimeShift where
  "zeroTimeShift = \<lparr>empty = False, year = zeroPartDef, month = zeroPartDef, day = zeroPartDef,
     week = zeroPartDef, weekday = zeroPartDef, hour = zeroPartDef, minute = zeroPartDef,
     second = zeroPartDef\<rparr>"

text \<open>
  One value per \<open>fmt.Errorf\<close> call of \<open>New\<close>, carrying the arguments that are formatted
  into the message; \<open>IndexPanic\<close> stands for the run-time panic of \<open>name[0]\<close> on an empty
  name (which the regular expression excludes).
\<close>

datatype error =
    IllegalPattern string
  | WrongSequence string string
  | IllegalOption char string
  | AnchorWithRelative string
  | AnchorsSimultaneously string
  | IllegalMonth string
  | IllegalDay string
  | IllegalRelativeWeek string
  | IllegalAbsoluteWeek string
  | IllegalWeekday string
  | IndexPanic

section \<open>The regular expressions\<close>

text \<open>
  \<open>partExpression\<close> is \<^verbatim>\<open>(?:\s*)([YMDWwhms])([\^\$]?)([+-]?)(\d+)(?:\s*)\<close>.
  In Go's RE2 syntax \<^verbatim>\<open>\s\<close> is the class of tab, newline, form feed, carriage return
  and space, and \<^verbatim>\<open>\d\<close> is the class of the ASCII digits.
\<close>

definition isSpace :: "char \<Rightarrow> bool" where
  "isSpace c \<longleftrightarrow> c \<in> set [CHR 0x09, CHR 0x0A, CHR 0x0C, CHR 0x0D, CHR 0x20]"

definition isDigit :: "char \<Rightarrow> bool" where
  "isDigit c \<longleftrightarrow> c \<in> set ''0123456789''"

definition isUnit :: "char \<Rightarrow> bool" where
  "isUnit c \<longleftrightarrow> c \<in> set ''YMDWwhms''"

definition isAnchor :: "char \<Rightarrow> bool" where
  "isAnchor c \<longleftrightarrow> c = CHR ''^'' \<or> c = CHR ''$''"

definition isSign :: "char \<Rightarrow> bool" where
  "isSign c \<longleftrightarrow> c = CHR ''+'' \<or> c = CHR ''-''"

text \<open>
  A submatch of \<open>partExpression\<close>: the whole match and the four capture groups, under the
  names of the index constants \<open>partSrc\<close>, \<open>partName\<close>, \<open>partOptions\<close>, \<open>partSign\<close> and
  \<open>partVal\<close>.
\<close>

record part =
  partSrc :: string
  partName :: string
  partOptions :: string
  partSign :: string
  partVal :: string

text \<open>
  An optional single character of a class, taken greedily: the captured text and the rest.
\<close>

definition optChar :: "(char \<Rightarrow> bool) \<Rightarrow> string \<Rightarrow> string \<times> string" where
  "optChar cls s = (case s of [] \<Rightarrow> ([], []) | c # r \<Rightarrow> if cls c then ([c], r) else ([], s))"

text \<open>
  The match of \<open>partExpression\<close> that starts at the first byte of \<open>s\<close>, if there is one,
  with the rest of the input behind it. Every quantifier of the expression is greedy, and
  no shorter choice of an earlier quantifier can rescue a failing match (the classes of
  consecutive pieces are disjoint), so the preferred match is the one that takes as much as
  it can at each piece.
\<close>

definition matchPart :: "string \<Rightarrow> (part \<times> string) option" where
  "matchPart s =
     (let ws1 = takeWhile isSpace s; r1 = dropWhile isSpace s in
      case r1 of
        [] \<Rightarrow> None
      | c # r2 \<Rightarrow>
          if \<not> isUnit c then None
          else
            let (opt, r3) = optChar isAnchor r2;
                (sgn, r4) = optChar isSign r3;
                ds = takeWhile isDigit r4; r5 = dropWhile isDigit r4
            in if ds = [] then None
               else
                 let ws2 = takeWhile isSpace r5; r6 = dropWhile isSpace r5
                 in Some (\<lparr>partSrc = ws1 @ [c] @ opt @ sgn @ ds @ ws2, partName = [c],
                            partOptions = opt, partSign = sgn, partVal = ds\<rparr>, r6))"

lemma optChar_length: "optChar cls s = (a, r) \<Longrightarrow> length r \<le> length s"
  by (auto simp: optChar_def split: list.splits if_splits)

lemma optChar_append: "optChar cls s = (a, r) \<Longrightarrow> s = a @ r"
  by (auto simp: optChar_def split: list.splits if_splits)

lemma matchPart_src: "matchPart s = Some (p, r) \<Longrightarrow> s = partSrc p @ r"
  unfolding matchPart_def Let_def
  apply (clarsimp split: list.splits if_splits prod.splits)
  subgoal for c r2 opt r3 sgn r4
    using optChar_append[of isAnchor r2 opt r3] optChar_append[of isSign r3 sgn r4]
      takeWhile_dropWhile_id[of isSpace s] takeWhile_dropWhile_id[of isDigit r4]
      takeWhile_dropWhile_id[of isSpace "dropWhile isDigit r4"]
    by (metis append_Cons append_Nil append_assoc)
  done

lemma matchPart_src_nonempty: "matchPart s = Some (p, r) \<Longrightarrow> partSrc p \<noteq> []"
  unfolding matchPart_def Let_def
  by (clarsimp split: list.splits if_splits prod.splits)

lemma matchPart_shorter: "matchPart s = Some (p, r) \<Longrightarrow> length r < length s"
  using matchPart_src[of s p r] matchPart_src_nonempty[of s p r] by (cases "partSrc p") auto

text \<open>
  \<open>checkRE\<close> is \<^verbatim>\<open>^(partExpression)+$\<close>: it matches only the whole input, so
  \<open>checkRE.FindAllStringSubmatch(pattern, -1)\<close> has one element when the input is a sequence
  of one or more parts and none otherwise; \<open>New\<close> only asks whether it is empty.
  \<open>checkRE_matches s\<close> is \<open>len(parts) \<noteq> 0\<close>.
\<close>

function checkRE_matches :: "string \<Rightarrow> bool" where
  "checkRE_matches s =
     (case matchPart s of
        None \<Rightarrow> False
      | Some (p, r) \<Rightarrow> r = [] \<or> checkRE_matches r)"
  by pat_completeness auto
termination
  by (relation "measure length") (auto dest: matchPart_shorter)

text \<open>
  \<open>splitRE.FindAllStringSubmatch(pattern, -1)\<close>: the successive non-overlapping matches of
  \<open>partExpression\<close>, each the leftmost one behind the previous match.
\<close>

function splitRE_FindAll :: "string \<Rightarrow> part list" where
  "splitRE_FindAll s =
     (if s = [] then []
      else case matchPart s of
             Some (p, r) \<Rightarrow> p # splitRE_FindAll r
           | None \<Rightarrow> splitRE_FindAll (tl s))"
  by pat_completeness auto
termination
  by (relation "measure length") (auto dest: matchPart_shorter)

section \<open>New: building a TimeShift from a pattern\<close>

text \<open>
  \<open>strconv.ParseInt(s, 10, 32)\<close> as the Go library documents it: the value and whether the
  returned error is non-nil. A string that is empty or holds a byte that is no digit gives
  \<open>0\<close> and a syntax error; a magnitude that a signed 32-bit integer cannot hold gives the
  nearest representable value, \<open>2^31 - 1\<close>, and a range error. (A leading sign is accepted
  by the library too; \<open>New\<close> only passes the digits captured by \<^verbatim>\<open>(\d+)\<close>.)
\<close>

definition digitVal :: "char \<Rightarrow> int" where
  "digitVal c = int (of_char c) - 48"

definition decimal :: "string \<Rightarrow> int" where
  "decimal s = foldl (\<lambda>a c. a * 10 + digitVal c) 0 s"

definition ParseInt32 :: "string \<Rightarrow> int \<times> bool" where
  "ParseInt32 s =
     (if s = [] \<or> \<not> list_all isDigit s then (0, True)
      else if decimal s \<ge> 2 ^ 31 then (2 ^ 31 - 1, True)
      else (decimal s, False))"

definition partNames :: string where
  "partNames = ''YMDWwhms!''"

text \<open>
  The inner loop of the sequence check: from \<open>nameIdx\<close>, look for the byte \<open>c\<close> in
  \<open>partNames\<close>; stop behind it when it is found, at \<open>len(partNames)\<close> otherwise.
\<close>

function seekName :: "char \<Rightarrow> nat \<Rightarrow> nat" where
  "seekName c nameIdx =
     (if nameIdx < length partNames
      then (if c = partNames ! nameIdx then nameIdx + 1 else seekName c (nameIdx + 1))
      else nameIdx)"
  by pat_completeness auto
termination
  by (relation "measure (\<lambda>(c, i). length partNames - i)") auto

text \<open>The loop over the characters of \<open>part[partOptions]\<close>.\<close>

fun optionsLoop :: "string \<Rightarrow> string \<Rightarrow> string \<Rightarrow> partDef \<Rightarrow> error + partDef" where
  "optionsLoop name src [] pDf = Inr pDf"
| "optionsLoop name src (c # cs) pDf =
     (if c = CHR ''^'' then
        (if name = ''W'' then optionsLoop name src cs (pDf\<lparr>fromBegin := True\<rparr>)
         else Inl (IllegalOption c src))
      else if c = CHR ''$'' then
        (if name = ''D'' \<or> name = ''W'' then optionsLoop name src cs (pDf\<lparr>fromEnd := True\<rparr>)
         else Inl (IllegalOption c src))
      else optionsLoop name src cs pDf)"

text \<open>The final \<open>switch name\<close>: the checks of each unit and the store into its slot.\<close>

definition storePart :: "string \<Rightarrow> string \<Rightarrow> partDef \<Rightarrow> TimeShift \<Rightarrow> error + TimeShift" where
  "storePart name src pDf ts =
     (if name = ''Y'' then Inr (ts\<lparr>year := pDf\<rparr>)
      else if name = ''M'' then
        (if absolute pDf \<and> val pDf = 0 then Inl (IllegalMonth src)
         else Inr (ts\<lparr>month := pDf\<rparr>))
      else if name = ''D'' then
        (if active pDf \<and> absolute pDf \<and> val pDf = 0 then Inl (IllegalDay src)
         else Inr (ts\<lparr>day := pDf\<rparr>))
      else if name = ''W'' then
        (if active pDf \<and> (fromBegin pDf \<or> fromEnd pDf) \<and> val pDf = 0
           then Inl (IllegalRelativeWeek src)
         else if active pDf \<and> \<not> (fromBegin pDf \<or> fromEnd pDf) \<and> absolute pDf \<and> val pDf = 0
           then Inl (IllegalAbsoluteWeek src)
         else Inr (ts\<lparr>week := pDf\<rparr>))
      else if name = ''w'' then
        (if val pDf < 0 \<or> val pDf > 6 then Inl (IllegalWeekday src)
         else Inr (ts\<lparr>weekday := pDf\<rparr>))
      else if name = ''h'' then Inr (ts\<lparr>hour := pDf\<rparr>)
      else if name = ''m'' then Inr (ts\<lparr>minute := pDf\<rparr>)
      else if name = ''s'' then Inr (ts\<lparr>second := pDf\<rparr>)
      else Inr ts)"

text \<open>
  The part of the loop body behind the sequence check: the value (the error of
  \<open>ParseInt\<close> is dropped, as in \<open>v, _ := strconv.ParseInt(...)\<close>), the sign, the options,
  the two anchor checks and the store.
\<close>

definition buildPartDef :: "part \<Rightarrow> error + partDef" where
  "buildPartDef p =
     (let v = fst (ParseInt32 (partVal p));
          pDf = \<lparr>active = True, val = v, absolute = True, fromBegin = False, fromEnd = False\<rparr>;
          pDf = (if partSign p = ''+'' then pDf\<lparr>absolute := False\<rparr>
                 else if partSign p = ''-'' then pDf\<lparr>absolute := False, val := - val pDf\<rparr>
                 else pDf)
      in case optionsLoop (partName p) (partSrc p) (partOptions p) pDf of
           Inl e \<Rightarrow> Inl e
         | Inr pDf \<Rightarrow>
             if (fromBegin pDf \<or> fromEnd pDf) \<and> \<not> absolute pDf
               then Inl (AnchorWithRelative (partSrc p))
             else if fromBegin pDf \<and> fromEnd pDf
               then Inl (AnchorsSimultaneously (partSrc p))
             else Inr pDf)"

text \<open>
  One iteration of the loop \<open>for _, part := range parts\<close> on the loop state \<open>nameIdx\<close>
  and the structure under construction: the error of the \<open>return\<close> it takes, or the state
  for the next iteration.
\<close>

definition partStep :: "string \<Rightarrow> part \<Rightarrow> nat \<Rightarrow> TimeShift \<Rightarrow> error + (nat \<times> TimeShift)" where
  "partStep pattern p nameIdx ts =
     (case partName p of
        [] \<Rightarrow> Inl IndexPanic
      | c # _ \<Rightarrow>
          (let nameIdx = seekName c nameIdx in
           if nameIdx \<ge> length partNames then Inl (WrongSequence pattern (partSrc p))
           else
             (case buildPartDef p of
                Inl e \<Rightarrow> Inl e
              | Inr pDf \<Rightarrow>
                  (case storePart (partName p) (partSrc p) pDf ts of
                     Inl e \<Rightarrow> Inl e
                   | Inr ts \<Rightarrow> Inr (nameIdx, ts)))))"

text \<open>
  The loop itself. It returns the named results \<open>ts\<close> and \<open>err\<close> as they stand at the
  \<open>return\<close>: on an error \<open>ts\<close> still is the partly built structure.
\<close>

fun partsLoop :: "string \<Rightarrow> part list \<Rightarrow> nat \<Rightarrow> TimeShift \<Rightarrow> TimeShift \<times> error option" where
  "partsLoop pattern [] nameIdx ts = (ts, None)"
| "partsLoop pattern (p # ps) nameIdx ts =
     (case partStep pattern p nameIdx ts of
        Inl e \<Rightarrow> (ts, Some e)
      | Inr st \<Rightarrow> partsLoop pattern ps (fst st) (snd st))"

text \<open>
  The body of \<open>New\<close> between the \<open>defer\<close> statement and the deferred call: the named
  results at the \<open>return\<close>.
\<close>

definition NewBody :: "string \<Rightarrow> TimeShift \<times> error option" where
  "NewBody pattern =
     (let ts = zeroTimeShift in
      if pattern = [] then (ts\<lparr>empty := True\<rparr>, None)
      else if \<not> checkRE_matches pattern then (ts, Some (IllegalPattern pattern))
      else partsLoop pattern (splitRE_FindAll pattern) 0 ts)"

text \<open>
  \<open>New\<close> itself on an explicit cache (the package-level map; the mutex only serialises
  accesses and has no sequential effect). The results are the pair \<open>(ts, err)\<close> of Go, each
  \<open>None\<close> for \<open>nil\<close>, and the cache afterwards. The deferred function runs on every return
  behind the \<open>defer\<close> statement: it replaces \<open>ts\<close> by \<open>nil\<close> when \<open>err\<close> is set, and
  stores \<open>ts\<close> under the pattern otherwise when \<open>cached\<close> holds.
\<close>

type_synonym cache = "string \<rightharpoonup> TimeShift"

definition New :: "string \<Rightarrow> bool \<Rightarrow> cache \<Rightarrow> (TimeShift option \<times> error option) \<times> cache" where
  "New pattern cached cache =
     (case (if cached then cache pattern else None) of
        Some ts \<Rightarrow> ((Some ts, None), cache)
      | None \<Rightarrow>
          let (ts, err) = NewBody pattern in
          if err \<noteq> None then ((None, err), cache)
          else if cached then ((Some ts, None), cache(pattern \<mapsto> ts))
          else ((Some ts, None), cache))"

section \<open>Timestamps\<close>

text \<open>
  \<open>Exec\<close> works on \<open>time.Time\<close> of the Go standard library, through \<open>Date\<close>, \<open>Clock\<close>,
  \<open>Day\<close>, \<open>Weekday\<close>, \<open>YearDay\<close>, \<open>Location\<close>, \<open>time.Date\<close> and \<open>AddDate\<close>. The library
  is not part of the package; it is modelled here as its documentation describes it, in the
  proleptic Gregorian calendar, for locations with a fixed offset from UTC (UTC itself and
  zones such as \<open>+03:00\<close>). In such a location a timestamp is determined by its calendar
  and clock fields, and a \<open>Time\<close> is the record of these fields together with the location.
  A value built by \<open>time.Date\<close> always has its fields in their natural ranges.
\<close>

record Location =
  zoneName :: string
  zoneOffset :: int

record Time =
  Year :: int
  Month :: int
  Day :: int
  Hour :: int
  Minute :: int
  Second :: int
  Nanosecond :: int
  Loc :: Location

definition isLeap :: "int \<Rightarrow> bool" where
  "isLeap y \<longleftrightarrow> y mod 4 = 0 \<and> (y mod 100 \<noteq> 0 \<or> y mod 400 = 0)"

text \<open>The number of days of month \<open>m\<close> (1 to 12) of year \<open>y\<close>.\<close>

definition daysIn :: "int \<Rightarrow> int \<Rightarrow> int" where
  "daysIn m y =
     (if m = 2 then (if isLeap y then 29 else 28)
      else if m = 4 \<or> m = 6 \<or> m = 9 \<or> m = 11 then 30
      else 31)"

text \<open>The number of days of year \<open>y\<close> before the first day of month \<open>m\<close> (1 to 12).\<close>

definition daysBefore :: "int \<Rightarrow> int \<Rightarrow> int" where
  "daysBefore m y =
     (if m \<le> 1 then 0
      else if m = 2 then 31
      else (if isLeap y then 1 else 0) +
        (if m = 3 then 59 else if m = 4 then 90 else if m = 5 then 120
         else if m = 6 then 151 else if m = 7 then 181 else if m = 8 then 212
         else if m = 9 then 243 else if m = 10 then 273 else if m = 11 then 304
         else 334))"

text \<open>
  The number of a day, counted from 1 for January 1 of year 1; the day argument may lie
  outside the month, the count is linear in it.
\<close>

definition dayNumber :: "int \<Rightarrow> int \<Rightarrow> int \<Rightarrow> int" where
  "dayNumber y m d =
     365 * (y - 1) + (y - 1) div 4 - (y - 1) div 100 + (y - 1) div 400 + daysBefore m y + d"

text \<open>
  \<open>norm\<close> of the library returns \<open>nhi, nlo\<close> with \<open>hi * base + lo = nhi * base + nlo\<close>
  and \<open>0 \<le> nlo < base\<close>.
\<close>

definition norm :: "int \<Rightarrow> int \<Rightarrow> int \<Rightarrow> int \<times> int" where
  "norm hi lo base = (hi + lo div base, lo mod base)"

text \<open>
  Normalisation of a day that lies outside its month (the month already within 1 to 12):
  days are carried into the following months and borrowed from the preceding ones, so that
  October 32 becomes November 1 and March 0 the last day of February.
\<close>

function normDate :: "int \<Rightarrow> int \<Rightarrow> int \<Rightarrow> int \<times> int \<times> int" where
  "normDate y m d =
     (if d < 1 then
        (if m \<le> 1 then normDate (y - 1) 12 (d + 31)
         else normDate y (m - 1) (d + daysIn (m - 1) y))
      else if d > daysIn m y then
        (if m \<ge> 12 then normDate (y + 1) 1 (d - 31)
         else normDate y (m + 1) (d - daysIn m y))
      else (y, m, d))"
  by pat_completeness auto
termination
  by (relation "measure (\<lambda>(y, m, d). if d < 1 then nat (32 - d) else nat d)")
     (auto simp: daysIn_def)

declare normDate.simps [simp del]

text \<open>
  \<open>time.Date(year, month, day, hour, min, sec, nsec, loc)\<close>: the month overflows into the
  year, nanoseconds into seconds, seconds into minutes, minutes into hours, hours into days,
  and the day into months and years.
\<close>

definition Date :: "int \<Rightarrow> int \<Rightarrow> int \<Rightarrow> int \<Rightarrow> int \<Rightarrow> int \<Rightarrow> int \<Rightarrow> Location \<Rightarrow> Time" where
  "Date y mo d h mi s ns loc =
     (let (y, m0) = norm y (mo - 1) 12;
          (s, ns) = norm s ns 1000000000;
          (mi, s) = norm mi s 60;
          (h, mi) = norm h mi 60;
          (d, h) = norm d h 24;
          (y, m, d) = normDate y (m0 + 1) d
      in \<lparr>Year = y, Month = m, Day = d, Hour = h, Minute = mi, Second = s, Nanosecond = ns,
           Loc = loc\<rparr>)"

text \<open>
  \<open>t.AddDate(years, months, days)\<close> is \<open>Date\<close> on the fields of \<open>t\<close> with the three
  amounts added, as in the library.
\<close>

definition AddDate :: "Time \<Rightarrow> int \<Rightarrow> int \<Rightarrow> int \<Rightarrow> Time" where
  "AddDate t years months days =
     Date (Year t + years) (Month t + months) (Day t + days)
          (Hour t) (Minute t) (Second t) (Nanosecond t) (Loc t)"

text \<open>\<open>t.Weekday()\<close>, Sunday being 0, and \<open>t.YearDay()\<close>, January 1 being 1.\<close>

definition Weekday :: "Time \<Rightarrow> int" where
  "Weekday t = dayNumber (Year t) (Month t) (Day t) mod 7"

definition YearDay :: "Time \<Rightarrow> int" where
  "YearDay t = daysBefore (Month t) (Year t) + Day t"

section \<open>Exec: applying a TimeShift\<close>

text \<open>The closure \<open>proc\<close>: the new value of the field \<open>v\<close> under the part \<open>df\<close>.\<close>

definition proc :: "partDef \<Rightarrow> int \<Rightarrow> int" where
  "proc df v =
     (if \<not> active df then v
      else if fromEnd df then v
      else if absolute df then val df
      else v + val df)"

text \<open>
  The branch \<open>if ts.week.active\<close> of \<open>Exec\<close>: the result and whether the branch has
  returned (the three anchored cases) or falls through to the weekday step.
\<close>

definition weekStep :: "TimeShift \<Rightarrow> Time \<Rightarrow> Time \<times> bool" where
  "weekStep ts result =
     (let df = week ts;
          wd = (if active (weekday ts) then val (weekday ts) else Weekday result)
      in if fromBegin df then
           (let result = AddDate result 0 0 (- Day result + 1);
                shift = wd - Weekday result;
                shift = (if shift < 0 then shift + 7 else shift);
                shift = shift + (val df - 1) * 7
            in (AddDate result 0 0 shift, True))
         else if fromEnd df then
           (let result = AddDate result 0 1 (- Day result);
                shift = wd - Weekday result;
                shift = (if shift > 0 then shift - 7 else shift);
                shift = shift - (val df - 1) * 7
            in (AddDate result 0 0 shift, True))
         else if absolute df then
           (let result = AddDate result 0 0 (- YearDay result + 1);
                shift = wd - Weekday result;
                shift = (if shift < 0 then shift + 7 else shift);
                shift = shift + (val df - 1) * 7
            in (AddDate result 0 0 shift, True))
         else (AddDate result 0 0 (val df * 7), False))"

definition Exec :: "TimeShift \<Rightarrow> Time \<Rightarrow> Time" where
  "Exec ts t =
     (if empty ts then t
      else
        let hour' = proc (hour ts) (Hour t);
            minute' = proc (minute ts) (Minute t);
            second' = proc (second ts) (Second t);
            year' = proc (year ts) (Year t);
            month' = proc (month ts) (Month t);
            day' = proc (day ts) (Day t);
            result = Date year' month' day' hour' minute' second' 0 (Loc t);
            result = (if fromEnd (day ts)
                      then AddDate result 0 1 (- day' - val (day ts) + 1)
                      else result);
            (result, returned) = (if active (week ts) then weekStep ts result
                                  else (result, False))
        in if returned then result
           else if active (weekday ts)
             then AddDate result 0 0 (val (weekday ts) - Weekday result)
           else result)"

section \<open>Notions used to state the properties\<close>

text \<open>
  The cache is private to the package and written by \<open>New\<close> only, so every cache that
  occurs in a run holds under a pattern exactly the structure that parsing that pattern
  gives. \<open>cache_ok\<close> is this invariant; it holds of the empty cache and every call of
  \<open>New\<close> preserves it.
\<close>

definition cache_ok :: "cache \<Rightarrow> bool" where
  "cache_ok cache \<longleftrightarrow> (\<forall>p ts. cache p = Some ts \<longrightarrow> NewBody p = (ts, None))"

text \<open>The cache when the program starts: the empty map.\<close>

definition emptyCache :: cache where
  "emptyCache = Map.empty"

text \<open>A result of \<open>New\<close> is a rejection when the error is set and the structure is nil.\<close>

definition rejected :: "(TimeShift option \<times> error option) \<times> cache \<Rightarrow> bool" where
  "rejected r \<longleftrightarrow> fst (fst r) = None \<and> snd (fst r) \<noteq> None"

text \<open>
  The shape of the submatches that \<open>partExpression\<close> can produce: one unit letter, at most
  one anchor, at most one sign, and at least one digit.
\<close>

definition partOK :: "part \<Rightarrow> bool" where
  "partOK p \<longleftrightarrow>
     (\<exists>c. partName p = [c] \<and> isUnit c) \<and>
     (partOptions p = [] \<or> (\<exists>a. partOptions p = [a] \<and> isAnchor a)) \<and>
     (partSign p = [] \<or> (\<exists>g. partSign p = [g] \<and> isSign g)) \<and>
     partVal p \<noteq> [] \<and> list_all isDigit (partVal p)"

text \<open>
  The position of a unit letter in the fixed order Y, M, D, W, w, h, m, s, and the unit
  letters of a pattern in the order in which its clauses name them.
\<close>

definition unitIndex :: "char \<Rightarrow> nat" where
  "unitIndex c = length (takeWhile (\<lambda>x. x \<noteq> c) ''YMDWwhms'')"

definition unitLetters :: "string \<Rightarrow> string" where
  "unitLetters pattern = concat (map partName (splitRE_FindAll pattern))"



text \<open>The slot of a \<open>TimeShift\<close> that belongs to a unit letter.\<close>

definition unitPart :: "char \<Rightarrow> TimeShift \<Rightarrow> partDef" where
  "unitPart u ts =
     (if u = CHR ''Y'' then year ts else if u = CHR ''M'' then month ts
      else if u = CHR ''D'' then day ts else if u = CHR ''W'' then week ts
      else if u = CHR ''w'' then weekday ts else if u = CHR ''h'' then hour ts
      else if u = CHR ''m'' then minute ts else second ts)"

text \<open>
  The fields of a timestamp are in their natural ranges. Every value that \<open>time.Date\<close>
  returns is of this kind.
\<close>

definition validTime :: "Time \<Rightarrow> bool" where
  "validTime t \<longleftrightarrow>
     1 \<le> Month t \<and> Month t \<le> 12 \<and> 1 \<le> Day t \<and> Day t \<le> daysIn (Month t) (Year t) \<and>
     0 \<le> Hour t \<and> Hour t < 24 \<and> 0 \<le> Minute t \<and> Minute t < 60 \<and>
     0 \<le> Second t \<and> Second t < 60 \<and> 0 \<le> Nanosecond t \<and> Nanosecond t < 1000000000"

text \<open>The number of the day of a timestamp, counted from January 1 of year 1.\<close>

definition absDay :: "Time \<Rightarrow> int" where
  "absDay t = dayNumber (Year t) (Month t) (Day t)"

text \<open>The number of leap years among the years 1 to \<open>n\<close>.\<close>

definition leapCount :: "int \<Rightarrow> int" where
  "leapCount n = n div 4 - n div 100 + n div 400"

text \<open>
  What the normalisation of a day has to achieve: a month from 1 to 12, a day within that
  month, and the same day number as the input.
\<close>

definition normOK :: "int \<Rightarrow> int \<Rightarrow> int \<Rightarrow> int \<times> int \<times> int \<Rightarrow> bool" where
  "normOK y m d r \<longleftrightarrow>
     (case r of (y', m', d') \<Rightarrow>
        1 \<le> m' \<and> m' \<le> 12 \<and> 1 \<le> d' \<and> d' \<le> daysIn m' y' \<and>
        dayNumber y' m' d' = dayNumber y m d)"

text \<open>
  The intermediate values of \<open>Exec\<close>: the candidate that \<open>time.Date\<close> builds from
  the substituted fields, and the result behind the adjustment for a day counted from the
  end of the month.
\<close>

definition candidate :: "TimeShift \<Rightarrow> Time \<Rightarrow> Time" where
  "candidate ts t =
     Date (proc (year ts) (Year t)) (proc (month ts) (Month t)) (proc (day ts) (Day t))
          (proc (hour ts) (Hour t)) (proc (minute ts) (Minute t)) (proc (second ts) (Second t))
          0 (Loc t)"

definition afterDayFromEnd :: "TimeShift \<Rightarrow> Time \<Rightarrow> Time" where
  "afterDayFromEnd ts t =
     (if fromEnd (day ts)
      then AddDate (candidate ts t) 0 1 (- proc (day ts) (Day t) - val (day ts) + 1)
      else candidate ts t)"

text \<open>
  The reference weekday of the week step: the value of the weekday unit when that unit is
  active, the weekday of the result so far otherwise.
\<close>

definition weekRef :: "TimeShift \<Rightarrow> Time \<Rightarrow> int" where
  "weekRef ts r = (if active (weekday ts) then val (weekday ts) else Weekday r)"

text \<open>The first day of the month of a timestamp, at the same time of day.\<close>

definition monthStart :: "Time \<Rightarrow> Time" where
  "monthStart r = r\<lparr>Day := 1\<rparr>"

text \<open>
  Parsing a pattern and applying the result, as the test of the package does: \<open>New\<close>
  without the cache, then \<open>Exec\<close>.
\<close>

definition shiftBy :: "string \<Rightarrow> Time \<Rightarrow> Time option" where
  "shiftBy pattern t =
     (case fst (fst (New pattern False emptyCache)) of
        None \<Rightarrow> None
      | Some ts \<Rightarrow> Some (Exec ts t))"

text \<open>\<open>time.UTC\<close>, and a timestamp in UTC with no fraction of a second.\<close>

definition UTC :: Location where
  "UTC = \<lparr>zoneName = ''UTC'', zoneOffset = 0\<rparr>"

definition utcTime :: "int \<Rightarrow> int \<Rightarrow> int \<Rightarrow> int \<Rightarrow> int \<Rightarrow> int \<Rightarrow> Time" where
  "utcTime y m d h mi s =
     \<lparr>Year = y, Month = m, Day = d, Hour = h, Minute = mi, Second = s, Nanosecond = 0,
      Loc = UTC\<rparr>"

text \<open>
  The parts that \<open>New\<close> builds for the four forms of a clause: a plain number, a signed
  number, and a number under the anchor \<open>^\<close> or \<open>$\<close>.
\<close>

definition absPart :: "int \<Rightarrow> partDef" where
  "absPart v = \<lparr>active = True, val = v, absolute = True, fromBegin = False, fromEnd = False\<rparr>"

definition relPart :: "int \<Rightarrow> partDef" where
  "relPart v = \<lparr>active = True, val = v, absolute = False, fromBegin = False, fromEnd = False\<rparr>"

definition fromBeginPart :: "int \<Rightarrow> partDef" where
  "fromBeginPart v =
     \<lparr>active = True, val = v, absolute = True, fromBegin = True, fromEnd = False\<rparr>"

definition fromEndPart :: "int \<Rightarrow> partDef" where
  "fromEndPart v =
     \<lparr>active = True, val = v, absolute = True, fromBegin = False, fromEnd = True\<rparr>"

text \<open>
  The invariants of the data model. A part never has both anchors, an anchored part is
  absolute, and an absolute part holds the magnitude as parsed, which is not negative.
  In a structure, \<open>^\<close> occurs on the week only and \<open>$\<close> on the day and the week only,
  an anchored day or week has a value of at least 1, and an active weekday lies between 0
  and 6.
\<close>

definition partInv :: "partDef \<Rightarrow> bool" where
  "partInv pDf \<longleftrightarrow>
     ((fromBegin pDf \<or> fromEnd pDf) \<longrightarrow> active pDf \<and> absolute pDf) \<and>
     \<not> (fromBegin pDf \<and> fromEnd pDf) \<and>
     (absolute pDf \<longrightarrow> 0 \<le> val pDf)"

definition plainPart :: "partDef \<Rightarrow> bool" where
  "plainPart pDf \<longleftrightarrow> partInv pDf \<and> \<not> fromBegin pDf \<and> \<not> fromEnd pDf"

definition specInv :: "TimeShift \<Rightarrow> bool" where
  "specInv ts \<longleftrightarrow>
     plainPart (year ts) \<and> plainPart (month ts) \<and> plainPart (hour ts) \<and>
     plainPart (minute ts) \<and> plainPart (second ts) \<and> plainPart (weekday ts) \<and>
     partInv (day ts) \<and> \<not> fromBegin (day ts) \<and> (fromEnd (day ts) \<longrightarrow> 1 \<le> val (day ts)) \<and>
     partInv (week ts) \<and> (fromBegin (week ts) \<or> fromEnd (week ts) \<longrightarrow> 1 \<le> val (week ts)) \<and>
     (active (weekday ts) \<longrightarrow> 0 \<le> val (weekday ts) \<and> val (weekday ts) \<le> 6)"

text \<open>
  The adjustment for a day counted from the end in the words of the specification: take
  the candidate's month-start, advance one month, then step back
  \<open>originalDayOfMonth + value - 1\<close> days.
\<close>

definition specDayFromEnd :: "Time \<Rightarrow> int \<Rightarrow> int \<Rightarrow> Time" where
  "specDayFromEnd cand originalDay value =
     AddDate (AddDate (monthStart cand) 0 1 0) 0 0 (- (originalDay + value - 1))"

text \<open>
  The position of a timestamp on the time line of its location, in seconds: days, hours,
  minutes and seconds weighted by their lengths.
\<close>

definition wallSeconds :: "Time \<Rightarrow> int" where
  "wallSeconds t = ((absDay t * 24 + Hour t) * 60 + Minute t) * 60 + Second t"

text \<open>
  A part with its digit string replaced by \<open>2147483647\<close> when the magnitude exceeds
  \<open>2^31 - 1\<close>, and the body of \<open>New\<close> run on the parts so replaced.
\<close>

definition clampPart :: "part \<Rightarrow> part" where
  "clampPart p = (if decimal (partVal p) > 2 ^ 31 - 1 then p\<lparr>partVal := ''2147483647''\<rparr> else p)"

definition NewBodyClamped :: "string \<Rightarrow> TimeShift \<times> error option" where
  "NewBodyClamped pattern =
     (let ts = zeroTimeShift in
      if pattern = [] then (ts\<lparr>empty := True\<rparr>, None)
      else if \<not> checkRE_matches pattern then (ts, Some (IllegalPattern pattern))
      else partsLoop pattern (map clampPart (splitRE_FindAll pattern)) 0 ts)"

text \<open>
  The rest of \<open>Exec\<close> behind the adjustment of the day: the week step and the weekday
  step, as a function of the result so far.
\<close>

definition phase3 :: "TimeShift \<Rightarrow> Time \<Rightarrow> Time" where
  "phase3 ts result =
     (let (result, returned) = (if active (week ts) then weekStep ts result
                                else (result, False))
      in if returned then result
         else if active (weekday ts)
           then AddDate result 0 0 (val (weekday ts) - Weekday result)
         else result)"

text \<open>The time of day of a timestamp together with its location.\<close>

definition timeOfDay :: "Time \<Rightarrow> int \<times> int \<times> int \<times> int \<times> Location" where
  "timeOfDay t = (Hour t, Minute t, Second t, Nanosecond t, Loc t)"

section \<open>Properties of New\<close>

declare checkRE_matches.simps [simp del]
declare splitRE_FindAll.simps [simp del]
declare seekName.simps [simp del]

text \<open>
  With the cache invariant, \<open>New\<close> is determined by \<open>NewBody\<close>: a hit in the cache
  returns what parsing would return.
\<close>

lemma cache_ok_empty: "cache_ok Map.empty"
  by (simp add: cache_ok_def)

lemma cache_ok_emptyCache: "cache_ok emptyCache"
  by (simp add: cache_ok_def emptyCache_def)

lemma New_cache_ok:
  "cache_ok cache \<Longrightarrow>
     fst (New p c cache) = (if snd (NewBody p) = None then (Some (fst (NewBody p)), None)
                            else (None, snd (NewBody p)))"
  by (auto simp: New_def cache_ok_def Let_def split: option.splits prod.splits)

lemma New_preserves_cache_ok: "cache_ok cache \<Longrightarrow> cache_ok (snd (New p c cache))"
  by (auto simp: New_def cache_ok_def Let_def split: option.splits prod.splits)

lemma rejected_iff: "cache_ok cache \<Longrightarrow> rejected (New p c cache) \<longleftrightarrow> snd (NewBody p) \<noteq> None"
  by (simp add: rejected_def New_cache_ok)

text \<open>Every submatch that the splitting expression produces has the expected shape.\<close>

lemma optChar_cases: "optChar cls s = (a, r) \<Longrightarrow> a = [] \<or> (\<exists>c. a = [c] \<and> cls c)"
  by (auto simp: optChar_def split: list.splits if_splits)

lemma matchPart_partOK: "matchPart s = Some (p, r) \<Longrightarrow> partOK p"
  unfolding matchPart_def Let_def partOK_def
  by (auto split: list.splits if_splits prod.splits dest: optChar_cases
      simp: list_all_iff dest!: set_takeWhileD)

lemma splitRE_partOK: "p \<in> set (splitRE_FindAll s) \<Longrightarrow> partOK p"
proof (induction s rule: splitRE_FindAll.induct)
  case (1 s)
  then show ?case
    by (subst (asm) (3) splitRE_FindAll.simps) (auto split: if_splits option.splits dest: matchPart_partOK)
qed

text \<open>
  A clause with an anchor and a sign never passes: either the anchor is illegal for the
  unit, or the check of anchors against relative values fails. The loop succeeds only when
  every part does.
\<close>

lemma buildPartDef_anchor_sign:
  assumes "partOK p" "partOptions p \<noteq> []" "partSign p \<noteq> []"
  shows "\<exists>e. buildPartDef p = Inl e"
  using assms unfolding partOK_def buildPartDef_def Let_def
  by (auto simp: isAnchor_def isSign_def)

lemma partsLoop_ok_parts:
  "partsLoop pat ps i ts = (ts', None) \<Longrightarrow> q \<in> set ps \<Longrightarrow> \<exists>pDf. buildPartDef q = Inr pDf"
proof (induction ps arbitrary: i ts)
  case Nil then show ?case by simp
next
  case (Cons p ps)
  then show ?case
    by (auto simp: partStep_def Let_def split: sum.splits list.splits if_splits)
qed

text \<open>
  The sequence check. From a cursor position up to the position of the unit, the inner
  loop stops just behind the unit; from any later position it runs to the end of
  \<open>partNames\<close>, which is the error. So a loop that succeeds has seen its units in
  strictly increasing position.
\<close>

lemma seekName_big: "i \<ge> 9 \<Longrightarrow> seekName c i = i"
  by (subst seekName.simps) (simp add: partNames_def)

lemma seekName_unit:
  assumes "isUnit c" "nameIdx \<le> 9"
  shows "seekName c nameIdx = (if nameIdx \<le> unitIndex c then unitIndex c + 1 else 9)"
proof -
  have s9: "seekName c 9 = 9" by (simp add: seekName_big)
  have s8: "seekName c 8 = 9"
    using assms(1) by (subst seekName.simps) (auto simp: partNames_def isUnit_def s9)
  have s7: "seekName c 7 = (if c = CHR ''s'' then 8 else 9)"
    by (subst seekName.simps) (auto simp: partNames_def s8)
  have s6: "seekName c 6 = (if c = CHR ''m'' then 7 else if c = CHR ''s'' then 8 else 9)"
    by (subst seekName.simps) (auto simp: partNames_def s7)
  have s5: "seekName c 5 = (if c = CHR ''h'' then 6 else if c = CHR ''m'' then 7 else if c = CHR ''s'' then 8 else 9)"
    by (subst seekName.simps) (auto simp: partNames_def s6)
  have s4: "seekName c 4 = (if c = CHR ''w'' then 5 else if c = CHR ''h'' then 6 else if c = CHR ''m'' then 7 else if c = CHR ''s'' then 8 else 9)"
    by (subst seekName.simps) (auto simp: partNames_def s5)
  have s3: "seekName c 3 = (if c = CHR ''W'' then 4 else if c = CHR ''w'' then 5 else if c = CHR ''h'' then 6 else if c = CHR ''m'' then 7 else if c = CHR ''s'' then 8 else 9)"
    by (subst seekName.simps) (auto simp: partNames_def s4)
  have s2: "seekName c 2 = (if c = CHR ''D'' then 3 else if c = CHR ''W'' then 4 else if c = CHR ''w'' then 5 else if c = CHR ''h'' then 6 else if c = CHR ''m'' then 7 else if c = CHR ''s'' then 8 else 9)"
    by (subst seekName.simps) (auto simp: partNames_def s3)
  have s2': "seekName c (Suc (Suc 0)) = seekName c 2"
    by (simp add: numeral_2_eq_2)
  have s1: "seekName c (Suc 0) = (if c = CHR ''M'' then 2 else if c = CHR ''D'' then 3 else if c = CHR ''W'' then 4 else if c = CHR ''w'' then 5 else if c = CHR ''h'' then 6 else if c = CHR ''m'' then 7 else if c = CHR ''s'' then 8 else 9)"
    by (subst seekName.simps) (auto simp: partNames_def s2' s2)
  have s0: "seekName c 0 = (if c = CHR ''Y'' then 1 else if c = CHR ''M'' then 2 else if c = CHR ''D'' then 3 else if c = CHR ''W'' then 4 else if c = CHR ''w'' then 5 else if c = CHR ''h'' then 6 else if c = CHR ''m'' then 7 else if c = CHR ''s'' then 8 else 9)"
    by (subst seekName.simps) (auto simp: partNames_def s1)
  from assms(2) have "nameIdx \<in> {0, 1, 2, 3, 4, 5, 6, 7, 8, 9}"
    by auto
  then consider (at0) "nameIdx = 0" | (at1) "nameIdx = 1" | (at2) "nameIdx = 2"
    | (at3) "nameIdx = 3" | (at4) "nameIdx = 4" | (at5) "nameIdx = 5" | (at6) "nameIdx = 6"
    | (at7) "nameIdx = 7" | (at8) "nameIdx = 8" | (at9) "nameIdx = 9"
    by blast
  then show ?thesis
  proof cases
    case at0 then show ?thesis using assms(1)
      by (simp only: s0) (auto simp: unitIndex_def isUnit_def)
  next
    case at1 then show ?thesis using assms(1)
      by (simp only: One_nat_def s1) (auto simp: unitIndex_def isUnit_def)
  next
    case at2 then show ?thesis using assms(1)
      by (simp only: s2) (auto simp: unitIndex_def isUnit_def)
  next
    case at3 then show ?thesis using assms(1)
      by (simp only: s3) (auto simp: unitIndex_def isUnit_def)
  next
    case at4 then show ?thesis using assms(1)
      by (simp only: s4) (auto simp: unitIndex_def isUnit_def)
  next
    case at5 then show ?thesis using assms(1)
      by (simp only: s5) (auto simp: unitIndex_def isUnit_def)
  next
    case at6 then show ?thesis using assms(1)
      by (simp only: s6) (auto simp: unitIndex_def isUnit_def)
  next
    case at7 then show ?thesis using assms(1)
      by (simp only: s7) (auto simp: unitIndex_def isUnit_def)
  next
    case at8 then show ?thesis using assms(1)
      by (simp only: s8) (auto simp: unitIndex_def isUnit_def)
  next
    case at9 then show ?thesis using assms(1)
      by (simp only: s9) (auto simp: unitIndex_def isUnit_def)
  qed
qed

lemma unitIndex_lt: "isUnit c \<Longrightarrow> unitIndex c < 8"
  by (auto simp: unitIndex_def isUnit_def)

lemma partsLoop_sequence:
  assumes "partsLoop pat ps i ts = (ts', None)" "\<forall>p\<in>set ps. partOK p" "i \<le> 9"
  shows "sorted_wrt (<) (map unitIndex (concat (map partName ps))) \<and>
         (\<forall>c \<in> set (concat (map partName ps)). i \<le> unitIndex c)"
  using assms
proof (induction ps arbitrary: i ts)
  case Nil then show ?case by simp
next
  case (Cons p ps)
  from Cons.prems(2) obtain c where c: "partName p = [c]" "isUnit c"
    by (auto simp: partOK_def)
  from Cons.prems(1) c obtain ts1 where
    step: "seekName c i < 9" "partsLoop pat ps (seekName c i) ts1 = (ts', None)"
    by (auto simp: partStep_def Let_def partNames_def split: sum.splits if_splits)
  from step(1) c(2) Cons.prems(3) have i: "i \<le> unitIndex c" "seekName c i = unitIndex c + 1"
    by (auto simp: seekName_unit split: if_splits)
  from Cons.IH[OF step(2)] Cons.prems(2) i unitIndex_lt[OF c(2)]
  have IH: "sorted_wrt (<) (map unitIndex (concat (map partName ps)))"
      "\<forall>c' \<in> set (concat (map partName ps)). unitIndex c < unitIndex c'"
    by (auto simp: Suc_le_eq)
  have "\<forall>c' \<in> set (concat (map partName ps)). i \<le> unitIndex c'"
    using IH(2) i(1) by fastforce
  then show ?case using c i(1) IH by simp
qed

lemma NewBody_out_of_order:
  assumes "\<not> sorted_wrt (<) (map unitIndex (unitLetters pattern))"
  shows "snd (NewBody pattern) \<noteq> None"
proof
  assume n: "snd (NewBody pattern) = None"
  from assms have ne: "pattern \<noteq> []"
    by (auto simp: unitLetters_def splitRE_FindAll.simps)
  from n ne obtain ts' where "partsLoop pattern (splitRE_FindAll pattern) 0 zeroTimeShift = (ts', None)"
    by (cases "partsLoop pattern (splitRE_FindAll pattern) 0 zeroTimeShift")
       (auto simp: NewBody_def Let_def split: if_splits)
  from partsLoop_sequence[OF this] assms show False
    by (auto simp: unitLetters_def dest: splitRE_partOK)
qed

lemma NewBody_anchor_sign:
  assumes "p \<in> set (splitRE_FindAll pattern)" "partOptions p \<noteq> []" "partSign p \<noteq> []"
  shows "snd (NewBody pattern) \<noteq> None"
proof
  assume n: "snd (NewBody pattern) = None"
  from assms(1) have ne: "pattern \<noteq> []"
    by (auto simp: splitRE_FindAll.simps)
  from n ne obtain ts' where "partsLoop pattern (splitRE_FindAll pattern) 0 zeroTimeShift = (ts', None)"
    by (cases "partsLoop pattern (splitRE_FindAll pattern) 0 zeroTimeShift")
       (auto simp: NewBody_def Let_def split: if_splits)
  from partsLoop_ok_parts[OF this assms(1)] buildPartDef_anchor_sign[OF splitRE_partOK[OF assms(1)] assms(2,3)]
  show False by auto
qed

text \<open>
  The whole-string check against the grammar of the specification. One direction follows
  the recursion of the check; for the other, the greedy match of a clause that is followed
  by nothing or by another clause takes exactly that clause, together with the whitespace
  in front of the next one.
\<close>

lemma class_disjoint:
  "isUnit c \<Longrightarrow> \<not> isSpace c" "isUnit c \<Longrightarrow> \<not> isDigit c"
  "isSign c \<Longrightarrow> \<not> isAnchor c" "isDigit c \<Longrightarrow> \<not> isAnchor c" "isDigit c \<Longrightarrow> \<not> isSign c"
  "isSpace c \<Longrightarrow> \<not> isDigit c"
  by (auto simp: isUnit_def isSpace_def isDigit_def isSign_def isAnchor_def)





lemma checkRE_matches_Some:
  "map_option snd (matchPart s) = Some r \<Longrightarrow> checkRE_matches s = (r = [] \<or> checkRE_matches r)"
  by (subst checkRE_matches.simps) (auto split: option.splits)


lemma optChar_skip: "s = [] \<or> \<not> cls (hd s) \<Longrightarrow> optChar cls s = ([], s)"
  by (cases s) (auto simp: optChar_def)

lemma optChar_take: "cls c \<Longrightarrow> optChar cls (c # s) = ([c], s)"
  by (simp add: optChar_def)





text \<open>A pattern that consists of one clause without anchor and without whitespace.\<close>

lemma matchPart_single:
  assumes "isUnit u" "sg = [] \<or> sg = ''+'' \<or> sg = ''-''" "ds \<noteq> []" "list_all isDigit ds"
  shows "matchPart (u # sg @ ds) =
           Some (\<lparr>partSrc = u # sg @ ds, partName = [u], partOptions = [], partSign = sg,
                  partVal = ds\<rparr>, [])"
proof -
  from assms(3,4) obtain d ds' where dd: "ds = d # ds'" "isDigit d" by (cases ds) auto
  have tw: "takeWhile isDigit ds = ds" "dropWhile isDigit ds = []"
    using assms(4) by (auto simp: list_all_iff)
  have oa: "optChar isAnchor (sg @ ds) = ([], sg @ ds)"
    using assms(2) dd by (auto simp: optChar_def isAnchor_def isDigit_def)
  have og: "optChar isSign (sg @ ds) = (sg, ds)"
    using assms(2) dd by (auto simp: optChar_def isSign_def isDigit_def)
  show ?thesis
    unfolding matchPart_def Let_def
    using assms(1,3) by (simp add: class_disjoint oa og tw)
qed

lemma ParseInt32_over_range:
  "ds \<noteq> [] \<Longrightarrow> list_all isDigit ds \<Longrightarrow> decimal ds > 2 ^ 31 - 1 \<Longrightarrow> ParseInt32 ds = (2147483647, True)"
  by (simp add: ParseInt32_def)

lemma NewBody_single:
  assumes "isUnit u" "sg = [] \<or> sg = ''+'' \<or> sg = ''-''" "ds \<noteq> []" "list_all isDigit ds"
  shows "NewBody (u # sg @ ds) =
           partsLoop (u # sg @ ds)
             [\<lparr>partSrc = u # sg @ ds, partName = [u], partOptions = [], partSign = sg, partVal = ds\<rparr>]
             0 zeroTimeShift"
proof -
  note m = matchPart_single[OF assms]
  have c: "checkRE_matches (u # sg @ ds)"
    using checkRE_matches_Some[of "u # sg @ ds" "[]"] m by simp
  have s: "splitRE_FindAll (u # sg @ ds) =
      [\<lparr>partSrc = u # sg @ ds, partName = [u], partOptions = [], partSign = sg, partVal = ds\<rparr>]"
    by (subst splitRE_FindAll.simps) (simp add: m splitRE_FindAll.simps[of "[]"])
  show ?thesis by (simp add: NewBody_def Let_def c s)
qed

lemma seekName_0: "isUnit u \<Longrightarrow> seekName u 0 = unitIndex u + 1"
  by (simp add: seekName_unit)

lemma buildPartDef_plain:
  "partOptions p = [] \<Longrightarrow>
     buildPartDef p =
       Inr \<lparr>active = True,
            val = (if partSign p = ''-'' then - fst (ParseInt32 (partVal p))
                   else fst (ParseInt32 (partVal p))),
            absolute = (partSign p \<noteq> ''+'' \<and> partSign p \<noteq> ''-''),
            fromBegin = False, fromEnd = False\<rparr>"
  by (simp add: buildPartDef_def Let_def)

lemma partsLoop_single:
  assumes "isUnit u" "partName p = [u]" "buildPartDef p = Inr pDf"
  shows "partsLoop pat [p] 0 ts =
           (case storePart [u] (partSrc p) pDf ts of
              Inl e \<Rightarrow> (ts, Some e)
            | Inr ts' \<Rightarrow> (ts', None))"
  using assms unitIndex_lt[OF assms(1)]
  by (simp add: partStep_def seekName_0 partNames_def split: sum.splits)

text \<open>
  The invariants of the data model hold of every structure that \<open>New\<close> returns: each
  iteration of the loop stores a part that satisfies them and leaves the other slots and
  the flag \<open>empty\<close> alone.
\<close>

lemma digitVal_nonneg: "isDigit c \<Longrightarrow> 0 \<le> digitVal c"
  by (auto simp: isDigit_def digitVal_def)

lemma foldl_decimal_nonneg:
  "list_all isDigit s \<Longrightarrow> 0 \<le> a \<Longrightarrow> 0 \<le> foldl (\<lambda>a c. a * 10 + digitVal c) a s"
proof (induction s arbitrary: a)
  case Nil then show ?case by simp
next
  case (Cons c s)
  from Cons.prems have "0 \<le> a * 10 + digitVal c"
    using digitVal_nonneg[of c] by simp
  with Cons show ?case by simp
qed

lemma ParseInt32_nonneg: "0 \<le> fst (ParseInt32 s)"
  using foldl_decimal_nonneg[of s 0] by (simp add: ParseInt32_def decimal_def)

lemma optionsLoop_keeps:
  "optionsLoop name src opts pDf = Inr pDf' \<Longrightarrow>
     val pDf' = val pDf \<and> absolute pDf' = absolute pDf \<and> active pDf' = active pDf \<and>
     (fromBegin pDf' \<longrightarrow> fromBegin pDf \<or> name = ''W'') \<and>
     (fromEnd pDf' \<longrightarrow> fromEnd pDf \<or> name = ''D'' \<or> name = ''W'')"
proof (induction opts arbitrary: pDf)
  case Nil
  then show ?case by simp
next
  case (Cons c cs)
  show ?case
  proof (cases "c = CHR ''^''")
    case True
    with Cons.prems have n: "name = ''W''"
      and r: "optionsLoop name src cs (pDf\<lparr>fromBegin := True\<rparr>) = Inr pDf'"
      by (simp_all split: if_splits)
    from Cons.IH[OF r] n show ?thesis by simp
  next
    case False
    show ?thesis
    proof (cases "c = CHR ''$''")
      case True
      with Cons.prems have n: "name = ''D'' \<or> name = ''W''"
        and r: "optionsLoop name src cs (pDf\<lparr>fromEnd := True\<rparr>) = Inr pDf'"
        by (simp_all split: if_splits)
      from Cons.IH[OF r] n show ?thesis by simp
    next
      case c2: False
      with False Cons.prems have "optionsLoop name src cs pDf = Inr pDf'" by simp
      from Cons.IH[OF this] show ?thesis .
    qed
  qed
qed

lemma buildPartDef_inv:
  assumes "buildPartDef p = Inr pDf"
  shows "partInv pDf \<and> active pDf \<and> (fromBegin pDf \<longrightarrow> partName p = ''W'') \<and>
         (fromEnd pDf \<longrightarrow> partName p = ''D'' \<or> partName p = ''W'')"
proof -
  define v where "v = fst (ParseInt32 (partVal p))"
  define pDf0 where "pDf0 = \<lparr>active = True, val = v, absolute = True, fromBegin = False, fromEnd = False\<rparr>"
  define pDf1 where "pDf1 = (if partSign p = ''+'' then pDf0\<lparr>absolute := False\<rparr>
                 else if partSign p = ''-'' then pDf0\<lparr>absolute := False, val := - val pDf0\<rparr>
                 else pDf0)"
  have v: "0 \<le> v" unfolding v_def by (rule ParseInt32_nonneg)
  have p1: "active pDf1" "\<not> fromBegin pDf1" "\<not> fromEnd pDf1" "absolute pDf1 \<longrightarrow> 0 \<le> val pDf1"
    using v unfolding pDf1_def pDf0_def by simp_all
  from assms have o: "optionsLoop (partName p) (partSrc p) (partOptions p) pDf1 = Inr pDf"
    and c: "\<not> ((fromBegin pDf \<or> fromEnd pDf) \<and> \<not> absolute pDf)" "\<not> (fromBegin pDf \<and> fromEnd pDf)"
    unfolding buildPartDef_def Let_def v_def[symmetric] pDf0_def[symmetric] pDf1_def[symmetric]
    by (auto split: sum.splits if_splits)
  from optionsLoop_keeps[OF o] p1 c show ?thesis
    unfolding partInv_def by auto
qed

lemma zeroTimeShift_inv: "specInv zeroTimeShift" "\<not> empty zeroTimeShift"
  by (simp_all add: specInv_def plainPart_def partInv_def zeroTimeShift_def zeroPartDef_def)

lemma storePart_cases:
  assumes "storePart name src pDf ts = Inr ts'"
  shows "(name = ''Y'' \<and> ts' = ts\<lparr>year := pDf\<rparr>) \<or>
         (name = ''M'' \<and> ts' = ts\<lparr>month := pDf\<rparr>) \<or>
         (name = ''D'' \<and> ts' = ts\<lparr>day := pDf\<rparr> \<and> \<not> (active pDf \<and> absolute pDf \<and> val pDf = 0)) \<or>
         (name = ''W'' \<and> ts' = ts\<lparr>week := pDf\<rparr> \<and>
            \<not> (active pDf \<and> (fromBegin pDf \<or> fromEnd pDf) \<and> val pDf = 0)) \<or>
         (name = ''w'' \<and> ts' = ts\<lparr>weekday := pDf\<rparr> \<and> 0 \<le> val pDf \<and> val pDf \<le> 6) \<or>
         (name = ''h'' \<and> ts' = ts\<lparr>hour := pDf\<rparr>) \<or>
         (name = ''m'' \<and> ts' = ts\<lparr>minute := pDf\<rparr>) \<or>
         (name = ''s'' \<and> ts' = ts\<lparr>second := pDf\<rparr>) \<or>
         ts' = ts"
proof (cases "name = ''Y''")
  case True with assms show ?thesis by (simp add: storePart_def)
next
  case nY: False
  show ?thesis
  proof (cases "name = ''M''")
    case True with assms show ?thesis by (simp add: storePart_def split: if_splits)
  next
    case nM: False
    show ?thesis
    proof (cases "name = ''D''")
      case True with assms show ?thesis by (simp add: storePart_def split: if_splits)
    next
      case nD: False
      show ?thesis
      proof (cases "name = ''W''")
        case True with assms show ?thesis by (simp add: storePart_def split: if_splits)
      next
        case nW: False
        show ?thesis
        proof (cases "name = ''w''")
          case True with assms show ?thesis by (simp add: storePart_def split: if_splits)
        next
          case nw: False
          from assms nY nM nD nW nw show ?thesis
            by (simp add: storePart_def split: if_splits)
        qed
      qed
    qed
  qed
qed

lemma storePart_inv:
  assumes "specInv ts" "partInv pDf" "active pDf" "fromBegin pDf \<longrightarrow> name = ''W''"
    "fromEnd pDf \<longrightarrow> name = ''D'' \<or> name = ''W''" "storePart name src pDf ts = Inr ts'"
  shows "specInv ts' \<and> empty ts' = empty ts"
proof -
  have pl: "plainPart pDf" if "name \<noteq> ''W''" "name \<noteq> ''D''"
    using that assms(2,4,5) unfolding plainPart_def by blast
  have nn: "0 \<le> val pDf" if "fromBegin pDf \<or> fromEnd pDf"
    using that assms(2) unfolding partInv_def by blast
  have ab: "active pDf \<and> absolute pDf" if "fromBegin pDf \<or> fromEnd pDf"
    using that assms(2) unfolding partInv_def by blast
  from storePart_cases[OF assms(6)] show ?thesis
  proof (elim disjE conjE, goal_cases)
    case 1
    from pl 1(1) have "plainPart pDf" by simp
    with assms(1) show ?case unfolding 1(2) specInv_def by simp
  next
    case 2
    from pl 2(1) have "plainPart pDf" by simp
    with assms(1) show ?case unfolding 2(2) specInv_def by simp
  next
    case 3
    from assms(4) 3(1) have nb: "\<not> fromBegin pDf" by simp
    have "1 \<le> val pDf" if "fromEnd pDf"
      using nn ab 3(3) that by fastforce
    with assms(1,2) nb show ?case unfolding 3(2) specInv_def by simp
  next
    case 4
    have "1 \<le> val pDf" if "fromBegin pDf \<or> fromEnd pDf"
      using nn[OF that] ab[OF that] 4(3) that by fastforce
    with assms(1,2) show ?case unfolding 4(2) specInv_def by simp
  next
    case 5
    from pl 5(1) have "plainPart pDf" by simp
    with assms(1) 5(3,4) show ?case unfolding 5(2) specInv_def by simp
  next
    case 6
    from pl 6(1) have "plainPart pDf" by simp
    with assms(1) show ?case unfolding 6(2) specInv_def by simp
  next
    case 7
    from pl 7(1) have "plainPart pDf" by simp
    with assms(1) show ?case unfolding 7(2) specInv_def by simp
  next
    case 8
    from pl 8(1) have "plainPart pDf" by simp
    with assms(1) show ?case unfolding 8(2) specInv_def by simp
  next
    case 9
    with assms(1) show ?case by simp
  qed
qed

lemma partsLoop_inv:
  "specInv ts \<Longrightarrow> partsLoop pat ps i ts = (ts', None) \<Longrightarrow> specInv ts' \<and> empty ts' = empty ts"
proof (induction ps arbitrary: i ts)
  case Nil then show ?case by simp
next
  case (Cons p ps)
  from Cons.prems(2) obtain j ts1 where st: "partStep pat p i ts = Inr (j, ts1)"
    and rest: "partsLoop pat ps j ts1 = (ts', None)"
    by (auto split: sum.splits)
  from st obtain pDf where b: "buildPartDef p = Inr pDf"
    and s: "storePart (partName p) (partSrc p) pDf ts = Inr ts1"
    by (auto simp: partStep_def Let_def split: list.splits if_splits sum.splits)
  from buildPartDef_inv[OF b] storePart_inv[OF Cons.prems(1) _ _ _ _ s]
  have "specInv ts1 \<and> empty ts1 = empty ts" by blast
  with Cons.IH[OF _ rest] show ?case by simp
qed

lemma NewBody_inv:
  assumes "NewBody pattern = (ts, None)"
  shows "specInv ts \<and> (empty ts \<longleftrightarrow> pattern = []) \<and>
         (pattern = [] \<longrightarrow> ts = zeroTimeShift\<lparr>empty := True\<rparr>)"
proof (cases "pattern = []")
  case True
  with assms have "ts = zeroTimeShift\<lparr>empty := True\<rparr>" by (simp add: NewBody_def)
  with True zeroTimeShift_inv(1) show ?thesis by (simp add: specInv_def)
next
  case False
  with assms have "partsLoop pattern (splitRE_FindAll pattern) 0 zeroTimeShift = (ts, None)"
    by (auto simp: NewBody_def Let_def split: if_splits)
  from partsLoop_inv[OF zeroTimeShift_inv(1) this] False zeroTimeShift_inv(2) show ?thesis by simp
qed

lemma New_inv:
  assumes "cache_ok cache" "fst (New pattern cached cache) = (Some ts, None)"
  shows "specInv ts" "empty ts \<longleftrightarrow> pattern = []" "empty ts \<longrightarrow> ts = zeroTimeShift\<lparr>empty := True\<rparr>"
proof -
  from assms have "NewBody pattern = (ts, None)"
    by (cases "NewBody pattern") (auto simp: New_cache_ok split: if_splits)
  from NewBody_inv[OF this]
  show "specInv ts" "empty ts \<longleftrightarrow> pattern = []" "empty ts \<longrightarrow> ts = zeroTimeShift\<lparr>empty := True\<rparr>"
    by simp_all
qed

lemma New_active_not_empty:
  assumes "cache_ok cache" "fst (New pattern cached cache) = (Some ts, None)"
    and "active (week ts) \<or> active (weekday ts) \<or> active (day ts) \<or> fromEnd (day ts)"
  shows "\<not> empty ts"
proof
  assume "empty ts"
  with New_inv(3)[OF assms(1,2)] have "ts = zeroTimeShift\<lparr>empty := True\<rparr>" by simp
  with assms(3) show False by (simp add: zeroTimeShift_def zeroPartDef_def)
qed

text \<open>
  A clause of excessive magnitude is processed as the clause with the digits
  \<open>2147483647\<close>.
\<close>

lemma ParseInt32_clamped: "ParseInt32 ''2147483647'' = (2147483647, False)"
  by code_simp

lemma buildPartDef_clampPart:
  assumes "partVal p \<noteq> []" "list_all isDigit (partVal p)"
  shows "buildPartDef (clampPart p) = buildPartDef p"
proof (cases "decimal (partVal p) > 2 ^ 31 - 1")
  case True
  have "fst (ParseInt32 (partVal p)) = 2147483647"
    using ParseInt32_over_range[OF assms True] by simp
  moreover have c: "clampPart p = p\<lparr>partVal := ''2147483647''\<rparr>"
    using True by (simp add: clampPart_def)
  moreover have "partSign (p\<lparr>partVal := ''2147483647''\<rparr>) = partSign p"
    "partName (p\<lparr>partVal := ''2147483647''\<rparr>) = partName p"
    "partSrc (p\<lparr>partVal := ''2147483647''\<rparr>) = partSrc p"
    "partOptions (p\<lparr>partVal := ''2147483647''\<rparr>) = partOptions p"
    "partVal (p\<lparr>partVal := ''2147483647''\<rparr>) = ''2147483647''"
    by simp_all
  ultimately show ?thesis
    unfolding buildPartDef_def by (simp only: ParseInt32_clamped fst_conv)
next
  case False
  then show ?thesis by (simp add: clampPart_def)
qed

lemma partStep_clampPart:
  assumes "partOK p"
  shows "partStep pat (clampPart p) i ts = partStep pat p i ts"
proof -
  from assms have d: "partVal p \<noteq> []" "list_all isDigit (partVal p)"
    unfolding partOK_def by blast+
  have s: "partName (clampPart p) = partName p" "partSrc (clampPart p) = partSrc p"
    by (simp_all add: clampPart_def)
  show ?thesis
    unfolding partStep_def s buildPartDef_clampPart[OF d] by (rule refl)
qed

lemma partsLoop_clampPart:
  "\<forall>p\<in>set ps. partOK p \<Longrightarrow> partsLoop pat (map clampPart ps) i ts = partsLoop pat ps i ts"
proof (induction ps arbitrary: i ts)
  case Nil then show ?case by simp
next
  case (Cons p ps)
  then show ?case
    by (simp add: partStep_clampPart split: sum.splits)
qed

lemma NewBodyClamped_eq: "NewBodyClamped pattern = NewBody pattern"
proof -
  have "partsLoop pattern (map clampPart (splitRE_FindAll pattern)) 0 zeroTimeShift =
      partsLoop pattern (splitRE_FindAll pattern) 0 zeroTimeShift"
    by (rule partsLoop_clampPart) (blast intro: splitRE_partOK)
  then show ?thesis
    unfolding NewBodyClamped_def NewBody_def Let_def by simp
qed

lemma unitPart_store_other:
  assumes "isUnit u" "storePart name src pDf ts = Inr ts'" "name \<noteq> [u]"
  shows "unitPart u ts' = unitPart u ts"
proof -
  from assms(1) have u: "u = CHR ''Y'' \<or> u = CHR ''M'' \<or> u = CHR ''D'' \<or> u = CHR ''W'' \<or> u = CHR ''w'' \<or>
      u = CHR ''h'' \<or> u = CHR ''m'' \<or> u = CHR ''s''"
    by (simp add: isUnit_def)
  from storePart_cases[OF assms(2)] show ?thesis
  proof (elim disjE conjE, goal_cases)
    case 1 with u assms(3) show ?case by (auto simp: unitPart_def)
  next
    case 2 with u assms(3) show ?case by (auto simp: unitPart_def)
  next
    case 3 with u assms(3) show ?case by (auto simp: unitPart_def)
  next
    case 4 with u assms(3) show ?case by (auto simp: unitPart_def)
  next
    case 5 with u assms(3) show ?case by (auto simp: unitPart_def)
  next
    case 6 with u assms(3) show ?case by (auto simp: unitPart_def)
  next
    case 7 with u assms(3) show ?case by (auto simp: unitPart_def)
  next
    case 8 with u assms(3) show ?case by (auto simp: unitPart_def)
  next
    case 9 then show ?case by simp
  qed
qed

lemma unitPart_store_same:
  assumes "isUnit u" "storePart [u] src pDf ts = Inr ts'"
  shows "unitPart u ts' = pDf"
proof -
  from assms(1) consider "u = CHR ''Y''" | "u = CHR ''M''" | "u = CHR ''D''" | "u = CHR ''W''"
    | "u = CHR ''w''" | "u = CHR ''h''" | "u = CHR ''m''" | "u = CHR ''s''"
    by (auto simp: isUnit_def)
  then show ?thesis
    using assms(2)
    by cases (auto simp: storePart_def unitPart_def split: if_splits)
qed

lemma partStep_success:
  assumes "partOK p" "i \<le> 9" "partStep pat p i ts = Inr (j, ts1)"
  shows "\<exists>c pDf. partName p = [c] \<and> isUnit c \<and> i \<le> unitIndex c \<and> j = unitIndex c + 1 \<and>
           j \<le> 9 \<and> buildPartDef p = Inr pDf \<and> storePart [c] (partSrc p) pDf ts = Inr ts1"
proof -
  from assms(1) obtain c where c: "partName p = [c]" "isUnit c"
    unfolding partOK_def by blast
  from assms(3) c obtain pDf where
    sk: "seekName c i < 9" "j = seekName c i" and b: "buildPartDef p = Inr pDf"
    and st: "storePart [c] (partSrc p) pDf ts = Inr ts1"
    by (auto simp: partStep_def Let_def partNames_def split: sum.splits if_splits)
  from sk c(2) assms(2) have i: "i \<le> unitIndex c" "seekName c i = unitIndex c + 1"
    by (auto simp: seekName_unit split: if_splits)
  with sk c b st show ?thesis by auto
qed

lemma partsLoop_keeps_slot:
  assumes "partsLoop pat ps i ts = (ts', None)" "\<forall>p\<in>set ps. partOK p" "i \<le> 9"
    "isUnit u" "unitIndex u < i"
  shows "unitPart u ts' = unitPart u ts"
  using assms
proof (induction ps arbitrary: i ts)
  case Nil then show ?case by simp
next
  case (Cons p ps)
  from Cons.prems(1) obtain j ts1 where st: "partStep pat p i ts = Inr (j, ts1)"
    and rest: "partsLoop pat ps j ts1 = (ts', None)"
    by (auto split: sum.splits)
  from Cons.prems(2) have ok: "partOK p" "\<forall>p\<in>set ps. partOK p" by simp_all
  from partStep_success[OF ok(1) Cons.prems(3) st] obtain c pDf where
    c: "partName p = [c]" "isUnit c" "i \<le> unitIndex c" "j = unitIndex c + 1" "j \<le> 9"
      "storePart [c] (partSrc p) pDf ts = Inr ts1"
    by blast
  from c(3) Cons.prems(5) have ne: "[c] \<noteq> [u]" by auto
  have a: "unitPart u ts1 = unitPart u ts"
    by (rule unitPart_store_other[OF Cons.prems(4) c(6) ne])
  from c(3,4) Cons.prems(5) have "unitIndex u < j" by simp
  from Cons.IH[OF rest ok(2) c(5) Cons.prems(4) this] a show ?case by simp
qed

lemma partsLoop_slot:
  assumes "partsLoop pat ps i ts = (ts', None)" "\<forall>p\<in>set ps. partOK p" "i \<le> 9"
    "q \<in> set ps" "partName q = [u]"
  shows "buildPartDef q = Inr (unitPart u ts')"
  using assms(1,2,3,4)
proof (induction ps arbitrary: i ts)
  case Nil then show ?case by simp
next
  case (Cons p ps)
  from Cons.prems(1) obtain j ts1 where st: "partStep pat p i ts = Inr (j, ts1)"
    and rest: "partsLoop pat ps j ts1 = (ts', None)"
    by (auto split: sum.splits)
  from Cons.prems(2) have ok: "partOK p" "\<forall>p\<in>set ps. partOK p" by simp_all
  from partStep_success[OF ok(1) Cons.prems(3) st] obtain c pDf where
    c: "partName p = [c]" "isUnit c" "i \<le> unitIndex c" "j = unitIndex c + 1" "j \<le> 9"
      "buildPartDef p = Inr pDf" "storePart [c] (partSrc p) pDf ts = Inr ts1"
    by blast
  show ?case
  proof (cases "q = p")
    case True
    with c(1) assms(5) have u: "u = c" by simp
    have "unitPart c ts1 = pDf" by (rule unitPart_store_same[OF c(2,7)])
    moreover have "unitPart c ts' = unitPart c ts1"
      using c(4) by (intro partsLoop_keeps_slot[OF rest ok(2) c(5) c(2)]) simp
    ultimately show ?thesis using True u c(6) by simp
  next
    case False
    with Cons.prems(4) have "q \<in> set ps" by simp
    from Cons.IH[OF rest ok(2) c(5) this] show ?thesis .
  qed
qed

lemma buildPartDef_val:
  assumes "buildPartDef p = Inr pDf"
  shows "val pDf = (if partSign p = ''-'' then - fst (ParseInt32 (partVal p))
                    else fst (ParseInt32 (partVal p)))"
proof -
  define v where "v = fst (ParseInt32 (partVal p))"
  define pDf0 where "pDf0 = \<lparr>active = True, val = v, absolute = True, fromBegin = False, fromEnd = False\<rparr>"
  define pDf1 where "pDf1 = (if partSign p = ''+'' then pDf0\<lparr>absolute := False\<rparr>
                 else if partSign p = ''-'' then pDf0\<lparr>absolute := False, val := - val pDf0\<rparr>
                 else pDf0)"
  have p1: "val pDf1 = (if partSign p = ''-'' then - v else v)"
    unfolding pDf1_def pDf0_def by simp
  from assms have o: "optionsLoop (partName p) (partSrc p) (partOptions p) pDf1 = Inr pDf"
    unfolding buildPartDef_def Let_def v_def[symmetric] pDf0_def[symmetric] pDf1_def[symmetric]
    by (auto split: sum.splits if_splits)
  from optionsLoop_keeps[OF o] p1 show ?thesis
    unfolding v_def by simp
qed

lemma NewBody_slot:
  assumes "NewBody pattern = (ts, None)" "q \<in> set (splitRE_FindAll pattern)" "partName q = [u]"
  shows "buildPartDef q = Inr (unitPart u ts)"
proof -
  from assms(2) have ne: "pattern \<noteq> []"
    by (auto simp: splitRE_FindAll.simps)
  with assms(1) have l: "partsLoop pattern (splitRE_FindAll pattern) 0 zeroTimeShift = (ts, None)"
    by (auto simp: NewBody_def Let_def split: if_splits)
  show ?thesis
    by (rule partsLoop_slot[OF l _ _ assms(2,3)]) (auto intro: splitRE_partOK)
qed

lemma buildPartDef_full:
  assumes "partOK p" "buildPartDef p = Inr pDf"
  shows "pDf = \<lparr>active = True,
                val = (if partSign p = ''-'' then - fst (ParseInt32 (partVal p))
                       else fst (ParseInt32 (partVal p))),
                absolute = (partSign p = []), fromBegin = (partOptions p = ''^''),
                fromEnd = (partOptions p = ''$'')\<rparr>"
proof -
  define v where "v = fst (ParseInt32 (partVal p))"
  define pDf0 where "pDf0 = \<lparr>active = True, val = v, absolute = True, fromBegin = False, fromEnd = False\<rparr>"
  define pDf1 where "pDf1 = (if partSign p = ''+'' then pDf0\<lparr>absolute := False\<rparr>
                 else if partSign p = ''-'' then pDf0\<lparr>absolute := False, val := - val pDf0\<rparr>
                 else pDf0)"
  from assms(1) have sg: "partSign p = [] \<or> partSign p = ''+'' \<or> partSign p = ''-''"
    unfolding partOK_def isSign_def by blast
  then have p1: "pDf1 = \<lparr>active = True, val = (if partSign p = ''-'' then - v else v),
                   absolute = (partSign p = []), fromBegin = False, fromEnd = False\<rparr>"
    unfolding pDf1_def pDf0_def by auto
  from assms(2) have o: "optionsLoop (partName p) (partSrc p) (partOptions p) pDf1 = Inr pDf"
    and an: "\<not> ((fromBegin pDf \<or> fromEnd pDf) \<and> \<not> absolute pDf)"
    unfolding buildPartDef_def Let_def v_def[symmetric] pDf0_def[symmetric] pDf1_def[symmetric]
    by (auto split: sum.splits if_splits)
  note o' = o[unfolded p1]
  from assms(1) have cs: "partOptions p = [] \<or> partOptions p = ''^'' \<or> partOptions p = ''$''"
    unfolding partOK_def isAnchor_def by blast
  then consider (none) "partOptions p = []" | (hat) "partOptions p = ''^''"
    | (dollar) "partOptions p = ''$''"
    by blast
  then have "pDf = \<lparr>active = True, val = (if partSign p = ''-'' then - v else v),
                absolute = (partSign p = []), fromBegin = (partOptions p = ''^''),
                fromEnd = (partOptions p = ''$'')\<rparr>"
  proof cases
    case none
    from o' have "pDf = \<lparr>active = True, val = (if partSign p = ''-'' then - v else v),
                   absolute = (partSign p = []), fromBegin = False, fromEnd = False\<rparr>"
      unfolding none by simp
    then show ?thesis unfolding none by simp
  next
    case hat
    from o' have "pDf = \<lparr>active = True, val = (if partSign p = ''-'' then - v else v),
                   absolute = (partSign p = []), fromBegin = True, fromEnd = False\<rparr>"
      unfolding hat by (simp split: if_splits)
    then show ?thesis unfolding hat by simp
  next
    case dollar
    from o' have "pDf = \<lparr>active = True, val = (if partSign p = ''-'' then - v else v),
                   absolute = (partSign p = []), fromBegin = False, fromEnd = True\<rparr>"
      unfolding dollar by (simp split: if_splits)
    then show ?thesis unfolding dollar by simp
  qed
  then show ?thesis
    unfolding v_def[symmetric] .
qed

lemma over_range_slot:
  assumes "NewBody pattern = (ts, None)" "q \<in> set (splitRE_FindAll pattern)" "partName q = [u]"
    "decimal (partVal q) > 2 ^ 31 - 1"
  shows "unitPart u ts =
           \<lparr>active = True, val = (if partSign q = ''-'' then - 2147483647 else 2147483647),
            absolute = (partSign q = []), fromBegin = (partOptions q = ''^''),
            fromEnd = (partOptions q = ''$'')\<rparr>"
    and "u \<noteq> CHR ''w''"
proof -
  from assms(2) have ok: "partOK q" by (rule splitRE_partOK)
  then have "partVal q \<noteq> []" "list_all isDigit (partVal q)"
    unfolding partOK_def by blast+
  from ParseInt32_over_range[OF this assms(4)] have P: "fst (ParseInt32 (partVal q)) = 2147483647"
    by simp
  have b: "buildPartDef q = Inr (unitPart u ts)"
    by (rule NewBody_slot[OF assms(1,2,3)])
  from buildPartDef_full[OF ok b] show s: "unitPart u ts =
           \<lparr>active = True, val = (if partSign q = ''-'' then - 2147483647 else 2147483647),
            absolute = (partSign q = []), fromBegin = (partOptions q = ''^''),
            fromEnd = (partOptions q = ''$'')\<rparr>"
    unfolding P .
  from NewBody_inv[OF assms(1)] have "specInv ts" by simp
  then have w: "active (weekday ts) \<longrightarrow> 0 \<le> val (weekday ts) \<and> val (weekday ts) \<le> 6"
    unfolding specInv_def by blast
  show "u \<noteq> CHR ''w''"
  proof
    assume "u = CHR ''w''"
    with s have "active (weekday ts)" "val (weekday ts) = - 2147483647 \<or> val (weekday ts) = 2147483647"
      by (simp_all add: unitPart_def)
    with w show False by auto
  qed
qed

section \<open>The calendar\<close>

lemma daysIn_bounds: "28 \<le> daysIn m y" "daysIn m y \<le> 31"
  by (auto simp: daysIn_def)

text \<open>
  From one year to the next the count of leap years grows by one exactly in a leap year, so
  that the day number of December 31 is followed by that of January 1, and the last day of
  each month by the first of the next.
\<close>

lemma div_step:
  fixes n k :: int
  assumes "0 < k"
  shows "n div k - (n - 1) div k = (if n mod k = 0 then 1 else 0)"
proof (cases "n mod k = 0")
  case True
  have "n = k * (n div k) + n mod k" by simp
  with True have "n - 1 = k * (n div k - 1) + (k - 1)" by (simp add: algebra_simps)
  from int_div_pos_eq[OF this] assms have "(n - 1) div k = n div k - 1" by simp
  with True show ?thesis by simp
next
  case False
  have r: "0 \<le> n mod k" "n mod k < k" using assms by auto
  have "n = k * (n div k) + n mod k" by simp
  then have "n - 1 = k * (n div k) + (n mod k - 1)" by simp
  from int_div_pos_eq[OF this] r False have "(n - 1) div k = n div k" by simp
  with False show ?thesis by simp
qed

lemma mod_4_of_100: "(n::int) mod 100 = 0 \<Longrightarrow> n mod 4 = 0"
proof -
  assume "n mod 100 = 0"
  then have "100 dvd n" by (simp add: mod_eq_0_iff_dvd)
  moreover have "(4::int) dvd 100" by simp
  ultimately have "4 dvd n" by (rule dvd_trans[rotated])
  then show ?thesis by (simp add: mod_eq_0_iff_dvd)
qed

lemma mod_100_of_400: "(n::int) mod 400 = 0 \<Longrightarrow> n mod 100 = 0"
proof -
  assume "n mod 400 = 0"
  then have "400 dvd n" by (simp add: mod_eq_0_iff_dvd)
  moreover have "(100::int) dvd 400" by simp
  ultimately have "100 dvd n" by (rule dvd_trans[rotated])
  then show ?thesis by (simp add: mod_eq_0_iff_dvd)
qed

lemma regroup_counts:
  "((p4::int) - p100 + p400) - (q4 - q100 + q400) = (p4 - q4) - (p100 - q100) + (p400 - q400)"
  by simp

lemma leap_indicator:
  "(B \<longrightarrow> A) \<Longrightarrow> (C \<longrightarrow> B) \<Longrightarrow>
     (if A then 1 else 0) - (if B then 1 else 0) + (if C then 1 else (0::int)) =
     (if A \<and> (\<not> B \<or> C) then 1 else 0)"
  by (cases A; cases B; cases C; simp)

lemma leap_count_step:
  "(n div 4 - n div 100 + n div 400) - ((n - 1) div 4 - (n - 1) div 100 + (n - 1) div 400) =
     (if isLeap n then 1 else 0)"
proof -
  have d4: "n div 4 - (n - 1) div 4 = (if n mod 4 = 0 then 1 else 0)"
    by (rule div_step) simp
  have d100: "n div 100 - (n - 1) div 100 = (if n mod 100 = 0 then 1 else 0)"
    by (rule div_step) simp
  have d400: "n div 400 - (n - 1) div 400 = (if n mod 400 = 0 then 1 else 0)"
    by (rule div_step) simp
  have i: "(if n mod 4 = 0 then 1 else 0) - (if n mod 100 = 0 then 1 else 0) +
        (if n mod 400 = 0 then 1 else (0::int)) =
        (if n mod 4 = 0 \<and> (\<not> n mod 100 = 0 \<or> n mod 400 = 0) then 1 else 0)"
    by (rule leap_indicator; rule impI; erule mod_4_of_100 mod_100_of_400)
  show ?thesis
    unfolding regroup_counts isLeap_def by (simp only: d4 d100 d400 i)
qed

lemma leapCount_step: "leapCount n = leapCount (n - 1) + (if isLeap n then 1 else 0)"
  using leap_count_step[of n] unfolding leapCount_def by (simp only: algebra_simps)

lemma dayNumber_leapCount:
  "dayNumber y m d = 365 * (y - 1) + leapCount (y - 1) + daysBefore m y + d"
  unfolding dayNumber_def leapCount_def by (simp only: algebra_simps)

lemma daysBefore_1: "daysBefore 1 y = 0"
  by (simp add: daysBefore_def)

lemma daysBefore_12: "daysBefore 12 y = 334 + (if isLeap y then 1 else 0)"
  by (simp add: daysBefore_def)

lemma dayNumber_year_borrow: "dayNumber (y - 1) 12 (d + 31) = dayNumber y 1 d"
proof -
  have "leapCount (y - 1) = leapCount (y - 1 - 1) + (if isLeap (y - 1) then 1 else 0)"
    by (rule leapCount_step)
  then show ?thesis
    unfolding dayNumber_leapCount daysBefore_1 daysBefore_12 by (cases "isLeap (y - 1)") simp_all
qed

lemma dayNumber_year_carry: "dayNumber (y + 1) 1 (d - 31) = dayNumber y 12 d"
  using dayNumber_year_borrow[of "y + 1" "d - 31"] by simp

lemma daysBefore_step:
  assumes "1 \<le> m" "m < 12"
  shows "daysBefore (m + 1) y = daysBefore m y + daysIn m y"
proof -
  from assms have "m = 1 \<or> m = 2 \<or> m = 3 \<or> m = 4 \<or> m = 5 \<or> m = 6 \<or> m = 7 \<or> m = 8 \<or> m = 9
      \<or> m = 10 \<or> m = 11"
    by arith
  then show ?thesis
    by (cases "isLeap y") (auto simp: daysBefore_def daysIn_def)
qed

lemma dayNumber_month_carry:
  "1 \<le> m \<Longrightarrow> m < 12 \<Longrightarrow> dayNumber y (m + 1) (d - daysIn m y) = dayNumber y m d"
  unfolding dayNumber_leapCount by (simp add: daysBefore_step)

lemma dayNumber_month_borrow:
  "1 < m \<Longrightarrow> m \<le> 12 \<Longrightarrow> dayNumber y (m - 1) (d + daysIn (m - 1) y) = dayNumber y m d"
  using dayNumber_month_carry[of "m - 1" y "d + daysIn (m - 1) y"] by simp

lemma dayNumber_linear: "dayNumber y m (d + k) = dayNumber y m d + k"
  unfolding dayNumber_leapCount by simp

text \<open>
  The normalisation of the day ends in a month from 1 to 12 with a day inside that month,
  and every step of it keeps the day number.
\<close>

lemma normDate_normOK: "1 \<le> m \<Longrightarrow> m \<le> 12 \<Longrightarrow> normOK y m d (normDate y m d)"
proof (induction y m d rule: normDate.induct)
  case (1 y m d)
  show ?case
  proof (cases "d < 1")
    case True
    show ?thesis
    proof (cases "m \<le> 1")
      case m1: True
      with "1.prems" have m: "m = 1" by simp
      from "1.IH"(1)[OF True m1] have "normOK (y - 1) 12 (d + 31) (normDate (y - 1) 12 (d + 31))"
        by simp
      moreover have "normDate y m d = normDate (y - 1) 12 (d + 31)"
        using True m1 by (subst normDate.simps) simp
      ultimately show ?thesis
        by (simp add: normOK_def m dayNumber_year_borrow split: prod.splits)
    next
      case m2: False
      from "1.IH"(2)[OF True m2] "1.prems" m2
      have "normOK y (m - 1) (d + daysIn (m - 1) y) (normDate y (m - 1) (d + daysIn (m - 1) y))"
        by simp
      moreover have "normDate y m d = normDate y (m - 1) (d + daysIn (m - 1) y)"
        using True m2 by (subst normDate.simps) simp
      moreover have "dayNumber y (m - 1) (d + daysIn (m - 1) y) = dayNumber y m d"
        using m2 "1.prems" by (intro dayNumber_month_borrow) simp_all
      ultimately show ?thesis
        by (simp add: normOK_def split: prod.splits)
    qed
  next
    case False
    show ?thesis
    proof (cases "d > daysIn m y")
      case big: True
      show ?thesis
      proof (cases "m \<ge> 12")
        case m12: True
        with "1.prems" have m: "m = 12" by simp
        from "1.IH"(3)[OF False big m12] have "normOK (y + 1) 1 (d - 31) (normDate (y + 1) 1 (d - 31))"
          by simp
        moreover have "normDate y m d = normDate (y + 1) 1 (d - 31)"
          using False big m12 by (subst normDate.simps) simp
        ultimately show ?thesis
          by (simp add: normOK_def m dayNumber_year_carry split: prod.splits)
      next
        case m11: False
        from "1.IH"(4)[OF False big m11] "1.prems" m11
        have "normOK y (m + 1) (d - daysIn m y) (normDate y (m + 1) (d - daysIn m y))"
          by simp
        moreover have "normDate y m d = normDate y (m + 1) (d - daysIn m y)"
          using False big m11 by (subst normDate.simps) simp
        moreover have "dayNumber y (m + 1) (d - daysIn m y) = dayNumber y m d"
          using m11 "1.prems" by (intro dayNumber_month_carry) simp_all
        ultimately show ?thesis
          by (simp add: normOK_def split: prod.splits)
      qed
    next
      case small: False
      have "normDate y m d = (y, m, d)"
        using False small by (subst normDate.simps) simp
      with False small "1.prems" show ?thesis
        by (simp add: normOK_def)
    qed
  qed
qed

lemma normDate_id: "1 \<le> d \<Longrightarrow> d \<le> daysIn m y \<Longrightarrow> normDate y m d = (y, m, d)"
  by (subst normDate.simps) simp

text \<open>
  \<open>time.Date\<close> in one piece, the ranges of its result, and its day number. On fields that
  are in range already only the day is normalised; adding days shifts the day number by
  their count and the weekday accordingly.
\<close>

lemma Date_unfold:
  "Date y mo d h mi s ns loc =
     (let s1 = s + ns div 1000000000; mi1 = mi + s1 div 60; h1 = h + mi1 div 60;
          d1 = d + h1 div 24;
          r = normDate (y + (mo - 1) div 12) ((mo - 1) mod 12 + 1) d1
      in \<lparr>Year = fst r, Month = fst (snd r), Day = snd (snd r), Hour = h1 mod 24,
           Minute = mi1 mod 60, Second = s1 mod 60, Nanosecond = ns mod 1000000000,
           Loc = loc\<rparr>)"
  unfolding Date_def norm_def Let_def prod.case
  by (cases "normDate (y + (mo - 1) div 12) ((mo - 1) mod 12 + 1)
      (d + (h + (mi + (s + ns div 1000000000) div 60) div 60) div 24)")
     (simp only: prod.case fst_conv snd_conv)

lemma month_norm_range: "1 \<le> (mo - 1) mod 12 + 1" "(mo - 1) mod 12 + 1 \<le> (12::int)"
proof -
  define x where "x = (mo - 1) mod 12"
  have "0 \<le> x" "x < 12"
    unfolding x_def by (rule pos_mod_sign, simp) (rule pos_mod_bound, simp)
  then have "1 \<le> x + 1" "x + 1 \<le> 12"
    by linarith+
  then show "1 \<le> (mo - 1) mod 12 + 1" "(mo - 1) mod 12 + 1 \<le> (12::int)"
    unfolding x_def .
qed

lemma mod_ranges:
  "0 \<le> x mod 24" "x mod 24 < 24" "0 \<le> x mod 60" "x mod 60 < 60"
  "0 \<le> x mod 1000000000" "x mod 1000000000 < 1000000000" for x :: int
  by (rule pos_mod_sign pos_mod_bound, simp)+

lemma Date_valid: "validTime (Date y mo d h mi s ns loc)"
proof -
  define d1 where "d1 = d + (h + (mi + (s + ns div 1000000000) div 60) div 60) div 24"
  define r where "r = normDate (y + (mo - 1) div 12) ((mo - 1) mod 12 + 1) d1"
  have "normOK (y + (mo - 1) div 12) ((mo - 1) mod 12 + 1) d1 r"
    unfolding r_def by (rule normDate_normOK) (rule month_norm_range)+
  then have r: "1 \<le> fst (snd r)" "fst (snd r) \<le> 12" "1 \<le> snd (snd r)"
      "snd (snd r) \<le> daysIn (fst (snd r)) (fst r)"
    unfolding normOK_def by (cases r; simp)+
  show ?thesis
    unfolding Date_unfold validTime_def Let_def Time.select_convs
    by (intro conjI mod_ranges r[unfolded r_def d1_def])
qed

lemma absDay_Date:
  "absDay (Date y mo d h mi s ns loc) =
     dayNumber (y + (mo - 1) div 12) ((mo - 1) mod 12 + 1)
       (d + (h + (mi + (s + ns div 1000000000) div 60) div 60) div 24)"
proof -
  define d1 where "d1 = d + (h + (mi + (s + ns div 1000000000) div 60) div 60) div 24"
  define r where "r = normDate (y + (mo - 1) div 12) ((mo - 1) mod 12 + 1) d1"
  have "normOK (y + (mo - 1) div 12) ((mo - 1) mod 12 + 1) d1 r"
    unfolding r_def by (rule normDate_normOK) (rule month_norm_range)+
  then have "dayNumber (fst r) (fst (snd r)) (snd (snd r)) =
      dayNumber (y + (mo - 1) div 12) ((mo - 1) mod 12 + 1) d1"
    unfolding normOK_def by (cases r; simp)
  then show ?thesis
    unfolding Date_unfold absDay_def Let_def Time.select_convs r_def d1_def .
qed


lemma small_div_mod:
  "0 \<le> x \<Longrightarrow> x < b \<Longrightarrow> (x::int) div b = 0" "0 \<le> x \<Longrightarrow> x < b \<Longrightarrow> x mod b = x"
  by (rule div_pos_pos_trivial mod_pos_pos_trivial; assumption)+

lemma valid_month_norm:
  assumes "1 \<le> m" "m \<le> (12::int)"
  shows "(m - 1) div 12 = 0" "(m - 1) mod 12 + 1 = m"
proof -
  have r: "0 \<le> m - 1" "m - 1 < 12" using assms by linarith+
  show "(m - 1) div 12 = 0" by (rule small_div_mod(1)[OF r])
  have "(m - 1) mod 12 = m - 1" by (rule small_div_mod(2)[OF r])
  then show "(m - 1) mod 12 + 1 = m" by (simp only: diff_add_cancel)
qed

lemma Date_days:
  assumes "1 \<le> m" "m \<le> 12" "0 \<le> h" "h < 24" "0 \<le> mi" "mi < 60" "0 \<le> s" "s < 60"
    "0 \<le> ns" "ns < 1000000000"
  shows "Date y m d h mi s ns loc =
     \<lparr>Year = fst (normDate y m d), Month = fst (snd (normDate y m d)),
      Day = snd (snd (normDate y m d)), Hour = h, Minute = mi, Second = s, Nanosecond = ns,
      Loc = loc\<rparr>"
  unfolding Date_unfold Let_def
    small_div_mod[OF assms(9,10)] small_div_mod[OF assms(7,8)] small_div_mod[OF assms(5,6)]
    small_div_mod[OF assms(3,4)] valid_month_norm[OF assms(1,2)] add_0_right
  by (rule refl)

lemma Date_id:
  assumes "validTime t"
  shows "Date (Year t) (Month t) (Day t) (Hour t) (Minute t) (Second t) (Nanosecond t) (Loc t) = t"
proof -
  from assms have v: "1 \<le> Month t" "Month t \<le> 12" "0 \<le> Hour t" "Hour t < 24" "0 \<le> Minute t"
      "Minute t < 60" "0 \<le> Second t" "Second t < 60" "0 \<le> Nanosecond t"
      "Nanosecond t < 1000000000"
    and d: "1 \<le> Day t" "Day t \<le> daysIn (Month t) (Year t)"
    unfolding validTime_def by blast+
  show ?thesis
    unfolding Date_days[OF v] normDate_id[OF d] by simp
qed

lemma AddDate_days:
  assumes "validTime t"
  shows "AddDate t 0 0 k =
     \<lparr>Year = fst (normDate (Year t) (Month t) (Day t + k)),
      Month = fst (snd (normDate (Year t) (Month t) (Day t + k))),
      Day = snd (snd (normDate (Year t) (Month t) (Day t + k))),
      Hour = Hour t, Minute = Minute t, Second = Second t, Nanosecond = Nanosecond t,
      Loc = Loc t\<rparr>"
proof -
  from assms have v: "1 \<le> Month t" "Month t \<le> 12" "0 \<le> Hour t" "Hour t < 24" "0 \<le> Minute t"
      "Minute t < 60" "0 \<le> Second t" "Second t < 60" "0 \<le> Nanosecond t"
      "Nanosecond t < 1000000000"
    unfolding validTime_def by blast+
  show ?thesis
    unfolding AddDate_def add_0_right by (rule Date_days[OF v])
qed

lemma absDay_AddDate_days:
  assumes "validTime t"
  shows "absDay (AddDate t 0 0 k) = absDay t + k"
proof -
  from assms have m: "1 \<le> Month t" "Month t \<le> 12"
    unfolding validTime_def by blast+
  have "normOK (Year t) (Month t) (Day t + k) (normDate (Year t) (Month t) (Day t + k))"
    by (rule normDate_normOK[OF m])
  then have "dayNumber (fst (normDate (Year t) (Month t) (Day t + k)))
       (fst (snd (normDate (Year t) (Month t) (Day t + k))))
       (snd (snd (normDate (Year t) (Month t) (Day t + k)))) =
     dayNumber (Year t) (Month t) (Day t + k)"
    unfolding normOK_def by (cases "normDate (Year t) (Month t) (Day t + k)"; simp)
  then show ?thesis
    unfolding AddDate_days[OF assms] absDay_def Time.select_convs dayNumber_linear .
qed

lemma Weekday_absDay: "Weekday t = absDay t mod 7"
  unfolding Weekday_def absDay_def by (rule refl)

lemma Weekday_AddDate_days: "validTime t \<Longrightarrow> Weekday (AddDate t 0 0 k) = (Weekday t + k) mod 7"
  by (simp only: Weekday_absDay absDay_AddDate_days mod_add_left_eq)

lemma AddDate_valid: "validTime (AddDate t a b c)"
  unfolding AddDate_def by (rule Date_valid)

lemma Weekday_range: "0 \<le> Weekday t" "Weekday t < 7"
  unfolding Weekday_def by (rule pos_mod_sign pos_mod_bound, simp)+

section \<open>The claims about New\<close>

lemma NewBody_D0: "NewBody ''D0'' = (zeroTimeShift, Some (IllegalDay ''D0''))"
  by code_simp

text \<open>
  Claim C9. Whenever \<open>New\<close> returns an error, the \<open>TimeShift\<close> it returns is \<open>nil\<close>
  (the deferred function has replaced the partly built structure), and the cache is the
  one the call started with, also when \<open>cached\<close> is set: a failed parse stores nothing.
\<close>

theorem New_failed_parse_gives_nil_and_keeps_cache:
  "snd (fst (New pattern cached cache)) \<noteq> None \<Longrightarrow>
     fst (fst (New pattern cached cache)) = None \<and> snd (New pattern cached cache) = cache"
  by (auto simp: New_def Let_def split: option.splits prod.splits if_splits)

theorem New_failed_parse_gives_nil_and_keeps_cache_witness:
  "snd (fst (New ''D0'' True emptyCache)) \<noteq> None \<and>
     fst (fst (New ''D0'' True emptyCache)) = None \<and> snd (New ''D0'' True emptyCache) = emptyCache"
proof -
  have h: "snd (fst (New ''D0'' True emptyCache)) \<noteq> None"
    by (simp add: New_def NewBody_D0 emptyCache_def)
  show ?thesis
    using h New_failed_parse_gives_nil_and_keeps_cache [OF h] by simp
qed

lemma NewBody_illegal_examples:
  "NewBody ''D0'' = (zeroTimeShift, Some (IllegalDay ''D0''))"
  "NewBody ''M0'' = (zeroTimeShift, Some (IllegalMonth ''M0''))"
  "NewBody ''W0'' = (zeroTimeShift, Some (IllegalAbsoluteWeek ''W0''))"
  "NewBody ''w8'' = (zeroTimeShift, Some (IllegalWeekday ''w8''))"
  "NewBody ''W^+0'' = (zeroTimeShift, Some (AnchorWithRelative ''W^+0''))"
  "NewBody ''W$^2'' = (zeroTimeShift, Some (IllegalPattern ''W$^2''))"
  "snd (NewBody ''M1 Y2 D$-3 h-4 m+5 s6'') =
     Some (WrongSequence ''M1 Y2 D$-3 h-4 m+5 s6'' ''Y2 '')"
  by code_simp+

text \<open>
  Claim C8. \<open>New\<close> rejects \<open>D0\<close>, \<open>M0\<close>, \<open>W0\<close>, \<open>w8\<close>, \<open>W^+0\<close>, \<open>W$^2\<close> and
  \<open>M1 Y2 D$-3 h-4 m+5 s6\<close>, each with the error shown; it rejects every pattern with a
  clause that has both an anchor and a sign; and it rejects every pattern whose unit letters
  are not in strictly increasing position in the order Y, M, D, W, w, h, m, s, which covers
  a unit that comes too late as well as a unit that is repeated.
\<close>

theorem New_rejects_illegal_patterns:
  assumes "cache_ok cache"
  shows "fst (New ''D0'' cached cache) = (None, Some (IllegalDay ''D0'')) \<and>
         fst (New ''M0'' cached cache) = (None, Some (IllegalMonth ''M0'')) \<and>
         fst (New ''W0'' cached cache) = (None, Some (IllegalAbsoluteWeek ''W0'')) \<and>
         fst (New ''w8'' cached cache) = (None, Some (IllegalWeekday ''w8'')) \<and>
         fst (New ''W^+0'' cached cache) = (None, Some (AnchorWithRelative ''W^+0'')) \<and>
         fst (New ''W$^2'' cached cache) = (None, Some (IllegalPattern ''W$^2'')) \<and>
         fst (New ''M1 Y2 D$-3 h-4 m+5 s6'' cached cache) =
           (None, Some (WrongSequence ''M1 Y2 D$-3 h-4 m+5 s6'' ''Y2 '')) \<and>
         ((\<exists>p \<in> set (splitRE_FindAll pattern). partOptions p \<noteq> [] \<and> partSign p \<noteq> []) \<longrightarrow>
            rejected (New pattern cached cache)) \<and>
         (\<not> sorted_wrt (<) (map unitIndex (unitLetters pattern')) \<longrightarrow>
            rejected (New pattern' cached cache))"
  using assms
  by (auto simp: New_cache_ok NewBody_illegal_examples rejected_iff
      dest: NewBody_anchor_sign NewBody_out_of_order)

theorem New_rejects_illegal_patterns_witness:
  "cache_ok emptyCache \<and>
   (\<exists>p \<in> set (splitRE_FindAll ''W$+2''). partOptions p \<noteq> [] \<and> partSign p \<noteq> []) \<and>
   \<not> sorted_wrt (<) (map unitIndex (unitLetters ''Y1 M2 D$-3 h-4 h+5 s6'')) \<and>
   rejected (New ''W$+2'' True emptyCache) \<and>
   rejected (New ''Y1 M2 D$-3 h-4 h+5 s6'' True emptyCache) \<and>
   fst (New ''D0'' True emptyCache) = (None, Some (IllegalDay ''D0''))"
proof -
  have a: "\<exists>p \<in> set (splitRE_FindAll ''W$+2''). partOptions p \<noteq> [] \<and> partSign p \<noteq> []"
    by code_simp
  have b: "\<not> sorted_wrt (<) (map unitIndex (unitLetters ''Y1 M2 D$-3 h-4 h+5 s6''))"
    by code_simp
  show ?thesis
    using a b cache_ok_emptyCache
      New_rejects_illegal_patterns [OF cache_ok_emptyCache, of True "''W$+2''" "''Y1 M2 D$-3 h-4 h+5 s6''"]
    by blast
qed





text \<open>
  A pattern of one clause with an over-range digit string and no anchor: every unit other
  than the weekday is accepted with the saturated value, the weekday is rejected.
\<close>

lemma single_clause_over_range:
  assumes "cache_ok cache" "ds \<noteq> []" "list_all isDigit ds" "decimal ds > 2 ^ 31 - 1"
    and "sg = [] \<or> sg = ''+'' \<or> sg = ''-''"
  shows "ParseInt32 ds = (2147483647, True) \<and>
         (u \<in> set ''YMDWhms'' \<longrightarrow>
            (\<exists>ts. fst (New (u # sg @ ds) cached cache) = (Some ts, None) \<and>
                  unitPart u ts =
                    \<lparr>active = True, val = (if sg = ''-'' then - 2147483647 else 2147483647),
                     absolute = (sg = []), fromBegin = False, fromEnd = False\<rparr>)) \<and>
         fst (New (CHR ''w'' # sg @ ds) cached cache) =
           (None, Some (IllegalWeekday (CHR ''w'' # sg @ ds)))"
proof -
  note P = ParseInt32_over_range[OF assms(2,3,4)]
  define pDf where "pDf = \<lparr>active = True, val = (if sg = ''-'' then - 2147483647 else 2147483647),
                     absolute = (sg = []), fromBegin = False, fromEnd = False\<rparr>"
  have b: "buildPartDef \<lparr>partSrc = v # sg @ ds, partName = [v], partOptions = [], partSign = sg,
             partVal = ds\<rparr> = Inr pDf" for v
    using assms(5) by (auto simp: buildPartDef_plain P pDf_def)
  have nb: "NewBody (v # sg @ ds) =
      (case storePart [v] (v # sg @ ds) pDf zeroTimeShift of
              Inl e \<Rightarrow> (zeroTimeShift, Some e)
            | Inr ts' \<Rightarrow> (ts', None))" if "isUnit v" for v
    using partsLoop_single[OF that _ b, of v] NewBody_single[OF that assms(5) assms(2,3)]
    by simp
  have vpos: "val pDf < 0 \<or> val pDf > 6" by (simp add: pDf_def)
  have vnz: "val pDf \<noteq> 0" by (simp add: pDf_def)
  have w: "NewBody (CHR ''w'' # sg @ ds) = (zeroTimeShift, Some (IllegalWeekday (CHR ''w'' # sg @ ds)))"
    using vpos by (subst nb) (auto simp: isUnit_def storePart_def)
  have u: "\<exists>ts. NewBody (u # sg @ ds) = (ts, None) \<and> unitPart u ts = pDf"
    if "u \<in> set ''YMDWhms''"
  proof -
    from that have iu: "isUnit u" by (auto simp: isUnit_def)
    from that consider "u = CHR ''Y''" | "u = CHR ''M''" | "u = CHR ''D''" | "u = CHR ''W''"
      | "u = CHR ''h''" | "u = CHR ''m''" | "u = CHR ''s''"
      by auto
    then show ?thesis
      using nb[OF iu] by cases (simp_all add: storePart_def unitPart_def vnz)
  qed
  show ?thesis
  proof (intro conjI impI)
    show "ParseInt32 ds = (2147483647, True)" by (rule P)
  next
    assume "u \<in> set ''YMDWhms''"
    from u[OF this] obtain ts where ts: "NewBody (u # sg @ ds) = (ts, None)" "unitPart u ts = pDf"
      by blast
    have "fst (New (u # sg @ ds) cached cache) = (Some ts, None)"
      using assms(1) ts(1) by (simp add: New_cache_ok)
    with ts(2) show "\<exists>ts. fst (New (u # sg @ ds) cached cache) = (Some ts, None) \<and>
                  unitPart u ts =
                    \<lparr>active = True, val = (if sg = ''-'' then - 2147483647 else 2147483647),
                     absolute = (sg = []), fromBegin = False, fromEnd = False\<rparr>"
      unfolding pDf_def by blast
  next
    show "fst (New (CHR ''w'' # sg @ ds) cached cache) =
           (None, Some (IllegalWeekday (CHR ''w'' # sg @ ds)))"
      using assms(1) w by (simp add: New_cache_ok)
  qed
qed

lemma over_range_examples:
  "NewBody ''Y1 M99999999999'' =
     (zeroTimeShift\<lparr>year := absPart 1, month := absPart 2147483647\<rparr>, None)"
  "NewBody ''D$99999999999'' = (zeroTimeShift\<lparr>day := fromEndPart 2147483647\<rparr>, None)"
  "NewBody '' Y99999999999'' = (zeroTimeShift\<lparr>year := absPart 2147483647\<rparr>, None)"
  by code_simp+

text \<open>
  Claim C10, as amended. A clause whose digit string exceeds \<open>2^31 - 1\<close> is processed
  exactly as if its digits were \<open>2147483647\<close>: \<open>ParseInt\<close> returns that value together
  with a range error, \<open>New\<close> drops the error, and the outcome of \<open>New\<close> on any pattern is
  the outcome of its body run on the clauses with every such digit string replaced. The
  clause is still subject to the value checks of its unit. Whenever \<open>New\<close> accepts a pattern
  with such a clause, wherever the clause stands in the pattern and whatever its sign and
  anchor, the unit is not the weekday and the slot of the unit holds 2147483647, negated
  under the sign \<open>-\<close>, with the flags the sign and the anchor of the clause give. A pattern
  made of one such clause without anchor is accepted for every unit other than the weekday;
  for the weekday the saturated value fails the range check from 0 to 6 and \<open>New\<close> rejects
  the pattern. \<open>Y1 M99999999999\<close>, \<open>D$99999999999\<close> and \<open>Y99999999999\<close> behind a
  space are accepted with the saturated value.
\<close>

theorem over_range_magnitude_is_clamped:
  assumes "cache_ok cache"
  shows "fst (New pattern cached cache) =
           (if snd (NewBodyClamped pattern) = None
              then (Some (fst (NewBodyClamped pattern)), None)
            else (None, snd (NewBodyClamped pattern))) \<and>
         (q \<in> set (splitRE_FindAll pattern) \<and> partName q = [u] \<and>
          decimal (partVal q) > 2 ^ 31 - 1 \<longrightarrow>
            ParseInt32 (partVal q) = (2147483647, True) \<and>
            clampPart q = q\<lparr>partVal := ''2147483647''\<rparr> \<and>
            (fst (New pattern cached cache) = (Some ts, None) \<longrightarrow>
               u \<noteq> CHR ''w'' \<and>
               unitPart u ts =
                 \<lparr>active = True,
                  val = (if partSign q = ''-'' then - 2147483647 else 2147483647),
                  absolute = (partSign q = []), fromBegin = (partOptions q = ''^''),
                  fromEnd = (partOptions q = ''$'')\<rparr>)) \<and>
         (ds \<noteq> [] \<and> list_all isDigit ds \<and> decimal ds > 2 ^ 31 - 1 \<and>
          (sg = [] \<or> sg = ''+'' \<or> sg = ''-'') \<longrightarrow>
            ParseInt32 ds = (2147483647, True) \<and>
            (v \<in> set ''YMDWhms'' \<longrightarrow>
               (\<exists>ts. fst (New (v # sg @ ds) cached cache) = (Some ts, None) \<and>
                     unitPart v ts =
                       \<lparr>active = True,
                        val = (if sg = ''-'' then - 2147483647 else 2147483647),
                        absolute = (sg = []), fromBegin = False, fromEnd = False\<rparr>)) \<and>
            fst (New (CHR ''w'' # sg @ ds) cached cache) =
              (None, Some (IllegalWeekday (CHR ''w'' # sg @ ds)))) \<and>
         fst (New ''Y1 M99999999999'' cached cache) =
           (Some (zeroTimeShift\<lparr>year := absPart 1, month := absPart 2147483647\<rparr>), None) \<and>
         fst (New ''D$99999999999'' cached cache) =
           (Some (zeroTimeShift\<lparr>day := fromEndPart 2147483647\<rparr>), None) \<and>
         fst (New '' Y99999999999'' cached cache) =
           (Some (zeroTimeShift\<lparr>year := absPart 2147483647\<rparr>), None)"
proof (intro conjI impI)
  show "fst (New ''Y1 M99999999999'' cached cache) =
           (Some (zeroTimeShift\<lparr>year := absPart 1, month := absPart 2147483647\<rparr>), None)"
    by (simp add: New_cache_ok[OF assms] over_range_examples(1))
next
  show "fst (New ''D$99999999999'' cached cache) =
           (Some (zeroTimeShift\<lparr>day := fromEndPart 2147483647\<rparr>), None)"
    by (simp add: New_cache_ok[OF assms] over_range_examples(2))
next
  show "fst (New '' Y99999999999'' cached cache) =
           (Some (zeroTimeShift\<lparr>year := absPart 2147483647\<rparr>), None)"
    by (simp add: New_cache_ok[OF assms] over_range_examples(3))
next
  show "fst (New pattern cached cache) =
           (if snd (NewBodyClamped pattern) = None
              then (Some (fst (NewBodyClamped pattern)), None)
            else (None, snd (NewBodyClamped pattern)))"
    unfolding NewBodyClamped_eq by (rule New_cache_ok[OF assms])
next
  assume h: "q \<in> set (splitRE_FindAll pattern) \<and> partName q = [u] \<and>
          decimal (partVal q) > 2 ^ 31 - 1"
  from h have "partOK q" by (blast intro: splitRE_partOK)
  then have "partVal q \<noteq> []" "list_all isDigit (partVal q)"
    unfolding partOK_def by blast+
  with h show "ParseInt32 (partVal q) = (2147483647, True)"
    by (blast intro: ParseInt32_over_range)
next
  assume h: "q \<in> set (splitRE_FindAll pattern) \<and> partName q = [u] \<and>
          decimal (partVal q) > 2 ^ 31 - 1"
  then show "clampPart q = q\<lparr>partVal := ''2147483647''\<rparr>"
    unfolding clampPart_def by simp
next
  assume h: "q \<in> set (splitRE_FindAll pattern) \<and> partName q = [u] \<and>
          decimal (partVal q) > 2 ^ 31 - 1"
    and acc: "fst (New pattern cached cache) = (Some ts, None)"
  from acc have nb: "NewBody pattern = (ts, None)"
    by (cases "NewBody pattern") (auto simp: New_cache_ok[OF assms] split: if_splits)
  from h have h': "q \<in> set (splitRE_FindAll pattern)" "partName q = [u]"
    "decimal (partVal q) > 2 ^ 31 - 1"
    by blast+
  show "u \<noteq> CHR ''w''" by (rule over_range_slot(2)[OF nb h'])
  show "unitPart u ts =
                 \<lparr>active = True,
                  val = (if partSign q = ''-'' then - 2147483647 else 2147483647),
                  absolute = (partSign q = []), fromBegin = (partOptions q = ''^''),
                  fromEnd = (partOptions q = ''$'')\<rparr>"
    by (rule over_range_slot(1)[OF nb h'])
next
  assume h: "ds \<noteq> [] \<and> list_all isDigit ds \<and> decimal ds > 2 ^ 31 - 1 \<and>
          (sg = [] \<or> sg = ''+'' \<or> sg = ''-'')"
  then show "ParseInt32 ds = (2147483647, True)"
    by (blast intro: ParseInt32_over_range)
next
  assume h: "ds \<noteq> [] \<and> list_all isDigit ds \<and> decimal ds > 2 ^ 31 - 1 \<and>
          (sg = [] \<or> sg = ''+'' \<or> sg = ''-'')"
    and v: "v \<in> set ''YMDWhms''"
  from h have h': "ds \<noteq> []" "list_all isDigit ds" "decimal ds > 2 ^ 31 - 1"
    "sg = [] \<or> sg = ''+'' \<or> sg = ''-''"
    by blast+
  from single_clause_over_range[OF assms h'] v
  show "\<exists>ts. fst (New (v # sg @ ds) cached cache) = (Some ts, None) \<and>
                     unitPart v ts =
                       \<lparr>active = True,
                        val = (if sg = ''-'' then - 2147483647 else 2147483647),
                        absolute = (sg = []), fromBegin = False, fromEnd = False\<rparr>"
    by blast
next
  assume h: "ds \<noteq> [] \<and> list_all isDigit ds \<and> decimal ds > 2 ^ 31 - 1 \<and>
          (sg = [] \<or> sg = ''+'' \<or> sg = ''-'')"
  from h have h': "ds \<noteq> []" "list_all isDigit ds" "decimal ds > 2 ^ 31 - 1"
    "sg = [] \<or> sg = ''+'' \<or> sg = ''-''"
    by blast+
  from single_clause_over_range[OF assms h']
  show "fst (New (CHR ''w'' # sg @ ds) cached cache) =
              (None, Some (IllegalWeekday (CHR ''w'' # sg @ ds)))"
    by blast
qed

theorem over_range_magnitude_is_clamped_witness:
  "cache_ok emptyCache \<and>
   \<lparr>partSrc = ''M-99999999999'', partName = ''M'', partOptions = [], partSign = ''-'',
     partVal = ''99999999999''\<rparr> \<in> set (splitRE_FindAll ''Y1 M-99999999999'') \<and>
   decimal ''99999999999'' > 2 ^ 31 - 1 \<and>
   fst (New ''Y1 M-99999999999'' False emptyCache) =
     (Some (zeroTimeShift\<lparr>year := absPart 1, month := relPart (- 2147483647)\<rparr>), None) \<and>
   NewBodyClamped ''Y1 M-99999999999'' =
     (zeroTimeShift\<lparr>year := absPart 1, month := relPart (- 2147483647)\<rparr>, None) \<and>
   ParseInt32 ''99999999999'' = (2147483647, True) \<and>
   unitPart CHR ''M'' (zeroTimeShift\<lparr>year := absPart 1, month := relPart (- 2147483647)\<rparr>) =
     relPart (- 2147483647) \<and>
   list_all isDigit ''99999999999'' \<and> CHR ''Y'' \<in> set ''YMDWhms'' \<and>
   (\<exists>ts. fst (New ''Y-99999999999'' False emptyCache) = (Some ts, None) \<and>
         unitPart CHR ''Y'' ts = relPart (- 2147483647)) \<and>
   fst (New ''w-99999999999'' False emptyCache) = (None, Some (IllegalWeekday ''w-99999999999''))"
proof -
  define q where "q = \<lparr>partSrc = ''M-99999999999'', partName = ''M'', partOptions = [],
    partSign = ''-'', partVal = ''99999999999''\<rparr>"
  define ts0 where "ts0 = zeroTimeShift\<lparr>year := absPart 1, month := relPart (- 2147483647)\<rparr>"
  have nb: "NewBody ''Y1 M-99999999999'' = (ts0, None)"
    unfolding ts0_def by code_simp
  have a: "q \<in> set (splitRE_FindAll ''Y1 M-99999999999'')"
    unfolding q_def by code_simp
  have b: "partName q = [CHR ''M'']" "partSign q = ''-''" "partOptions q = []"
    "partVal q = ''99999999999''"
    unfolding q_def by simp_all
  have c: "decimal ''99999999999'' > 2 ^ 31 - 1" by code_simp
  have d: "fst (New ''Y1 M-99999999999'' False emptyCache) = (Some ts0, None)"
    by (simp add: New_cache_ok cache_ok_emptyCache nb)
  have e: "''99999999999'' \<noteq> []" "list_all isDigit ''99999999999''"
    "''-'' = [] \<or> ''-'' = ''+'' \<or> ''-'' = ''-''" "CHR ''Y'' \<in> set ''YMDWhms''"
    by simp_all code_simp
  note T = over_range_magnitude_is_clamped [OF cache_ok_emptyCache,
      of "''Y1 M-99999999999''" False q "CHR ''M''" ts0 "''99999999999''" "''-''" "CHR ''Y''",
      unfolded b]
  from T a c d have t1: "snd (NewBodyClamped ''Y1 M-99999999999'') = None \<and>
      fst (NewBodyClamped ''Y1 M-99999999999'') = ts0"
    by (auto split: if_splits)
  from T a c d have t2: "unitPart CHR ''M'' ts0 =
      \<lparr>active = True, val = (if ''-'' = ''-'' then - 2147483647 else 2147483647),
       absolute = (''-'' = []), fromBegin = ([] = ''^''), fromEnd = ([] = ''$'')\<rparr>"
    by blast
  from T a c have t3: "ParseInt32 ''99999999999'' = (2147483647, True)"
    by blast
  from T e c have t4: "\<exists>ts. fst (New ''Y-99999999999'' False emptyCache) = (Some ts, None) \<and>
      unitPart CHR ''Y'' ts =
        \<lparr>active = True, val = (if ''-'' = ''-'' then - 2147483647 else 2147483647),
         absolute = (''-'' = []), fromBegin = False, fromEnd = False\<rparr>"
    by simp
  from T e c have t5: "fst (New ''w-99999999999'' False emptyCache) =
      (None, Some (IllegalWeekday ''w-99999999999''))"
    by simp
  from t1 have t1': "NewBodyClamped ''Y1 M-99999999999'' = (ts0, None)"
    by (cases "NewBodyClamped ''Y1 M-99999999999''") simp
  from t2 have t2': "unitPart CHR ''M'' ts0 = relPart (- 2147483647)"
    by (simp add: relPart_def)
  from t4 have t4': "\<exists>ts. fst (New ''Y-99999999999'' False emptyCache) = (Some ts, None) \<and>
         unitPart CHR ''Y'' ts = relPart (- 2147483647)"
    by (simp add: relPart_def)
  from cache_ok_emptyCache a c d t1' t2' t3 t4' t5 e show ?thesis
    unfolding q_def ts0_def by blast
qed

text \<open>
  The claim as stated, for any clause, fails at the weekday clause \<open>w99999999999\<close>:
  \<open>New\<close> reports an error for it.
\<close>

theorem over_range_weekday_counterexample:
  "list_all isDigit ''99999999999'' \<and> decimal ''99999999999'' > 2 ^ 31 - 1 \<and>
   fst (New ''w99999999999'' False emptyCache) = (None, Some (IllegalWeekday ''w99999999999''))"
proof -
  have "NewBody ''w99999999999'' = (zeroTimeShift, Some (IllegalWeekday ''w99999999999''))"
    by code_simp
  moreover have "list_all isDigit ''99999999999''" by code_simp
  moreover have "decimal ''99999999999'' > 2 ^ 31 - 1" by code_simp
  ultimately show ?thesis
    by (simp add: New_cache_ok cache_ok_emptyCache)
qed

section \<open>Properties of Exec\<close>

text \<open>\<open>Exec\<close> in terms of its intermediate values.\<close>

lemma Exec_phases:
  "Exec ts t =
     (if empty ts then t
      else if active (week ts) \<and> snd (weekStep ts (afterDayFromEnd ts t))
        then fst (weekStep ts (afterDayFromEnd ts t))
      else
        let r = (if active (week ts) then fst (weekStep ts (afterDayFromEnd ts t))
                 else afterDayFromEnd ts t)
        in if active (weekday ts) then AddDate r 0 0 (val (weekday ts) - Weekday r) else r)"
proof -
  obtain r b where w: "weekStep ts (afterDayFromEnd ts t) = (r, b)"
    by (cases "weekStep ts (afterDayFromEnd ts t)")
  show ?thesis
    using w unfolding Exec_def afterDayFromEnd_def candidate_def Let_def
    by (cases "empty ts"; cases "active (week ts)"; cases b; simp)
qed

lemma afterDayFromEnd_valid: "validTime (afterDayFromEnd ts t)"
  unfolding afterDayFromEnd_def candidate_def
  by (cases "fromEnd (day ts)") (simp_all only: AddDate_valid Date_valid if_True if_False)

text \<open>The week step under the anchor \<open>^\<close>.\<close>

lemma monthStart_valid: "validTime r \<Longrightarrow> validTime (monthStart r)"
  unfolding validTime_def monthStart_def using daysIn_bounds(1)[of "Month r" "Year r"]
  by simp

lemma AddDate_to_monthStart:
  assumes "validTime r"
  shows "AddDate r 0 0 (- Day r + 1) = monthStart r"
proof -
  have d: "Day r + (- Day r + 1) = 1" by simp
  have n: "normDate (Year r) (Month r) 1 = (Year r, Month r, 1)"
    using daysIn_bounds(1)[of "Month r" "Year r"] by (intro normDate_id) simp_all
  show ?thesis
    unfolding AddDate_days[OF assms] d n monthStart_def by (cases r) simp
qed

lemma signed_mod7:
  fixes x :: int
  assumes "- 7 < x" "x < 7"
  shows "(if x < 0 then x + 7 else x) = x mod 7"
proof (cases "x < 0")
  case True
  have "(x + 7) mod 7 = x + 7"
    using True assms by (intro small_div_mod(2)) simp_all
  moreover have "(x + 7) mod 7 = x mod 7" by (rule mod_add_self2)
  ultimately show ?thesis using True by simp
next
  case False
  have "x mod 7 = x" using False assms by (intro small_div_mod(2)) simp_all
  with False show ?thesis by simp
qed

lemma weekday_after_shift:
  fixes a wd v :: int
  assumes "0 \<le> wd" "wd < 7"
  shows "(a + ((wd - a) mod 7 + 7 * (v - 1))) mod 7 = wd"
proof -
  have "(a + ((wd - a) mod 7 + 7 * (v - 1))) mod 7 = ((a + (wd - a) mod 7) + 7 * (v - 1)) mod 7"
    by (simp only: add.assoc)
  also have "\<dots> = (a + (wd - a) mod 7) mod 7" by (rule mod_mult_self2)
  also have "\<dots> = (a + (wd - a)) mod 7" by (rule mod_add_right_eq)
  also have "a + (wd - a) = wd" by simp
  also have "wd mod 7 = wd" using assms by (rule small_div_mod(2))
  finally show ?thesis .
qed

lemma weekStep_fromBegin:
  assumes "fromBegin (week ts)" "validTime r" "0 \<le> weekRef ts r" "weekRef ts r < 7"
  shows "weekStep ts r =
           (AddDate (monthStart r) 0 0
              ((weekRef ts r - Weekday (monthStart r)) mod 7 + 7 * (val (week ts) - 1)), True)"
proof -
  define x where "x = weekRef ts r - Weekday (monthStart r)"
  have "- 7 < x" "x < 7"
    using assms(3,4) Weekday_range[of "monthStart r"] unfolding x_def by linarith+
  then have s: "(if x < 0 then x + 7 else x) = x mod 7" by (rule signed_mod7)
  have "weekStep ts r =
      (AddDate (monthStart r) 0 0 ((if x < 0 then x + 7 else x) + (val (week ts) - 1) * 7), True)"
    unfolding weekStep_def Let_def AddDate_to_monthStart[OF assms(2)] weekRef_def[symmetric]
      x_def[symmetric]
    using assms(1) by (simp only: if_True)
  then have "weekStep ts r = (AddDate (monthStart r) 0 0 (x mod 7 + 7 * (val (week ts) - 1)), True)"
    unfolding s by (simp only: mult.commute)
  then show ?thesis
    unfolding x_def .
qed

text \<open>
  One month forward and back by more days than the day of month: the day is counted back
  from the end of the month.
\<close>

lemma Date_next_month:
  assumes "1 \<le> m" "m \<le> 12" "0 \<le> h" "h < 24" "0 \<le> mi" "mi < 60" "0 \<le> s" "s < 60"
    "0 \<le> ns" "ns < 1000000000"
  shows "Date y (m + 1) d h mi s ns loc =
     (let r = normDate (if m = 12 then y + 1 else y) (if m = 12 then 1 else m + 1) d
      in \<lparr>Year = fst r, Month = fst (snd r), Day = snd (snd r), Hour = h, Minute = mi,
           Second = s, Nanosecond = ns, Loc = loc\<rparr>)"
proof (cases "m = 12")
  case True
  have "Date y (12 + 1) d h mi s ns loc =
      (let r = normDate (y + 1) 1 d
       in \<lparr>Year = fst r, Month = fst (snd r), Day = snd (snd r), Hour = h, Minute = mi,
            Second = s, Nanosecond = ns, Loc = loc\<rparr>)"
    unfolding Date_unfold Let_def
      small_div_mod[OF assms(9,10)] small_div_mod[OF assms(7,8)] small_div_mod[OF assms(5,6)]
      small_div_mod[OF assms(3,4)] add_0_right
    by simp
  with True show ?thesis by simp
next
  case False
  with assms(1,2) have m: "1 \<le> m + 1" "m + 1 \<le> 12" by simp_all
  show ?thesis
    unfolding Date_days[OF m assms(3-10)] Let_def using False by simp
qed

lemma normDate_back_from_next_month:
  assumes "1 \<le> m" "m \<le> 12" "1 \<le> v" "v \<le> daysIn m y"
  shows "normDate (if m = 12 then y + 1 else y) (if m = 12 then 1 else m + 1) (1 - v) =
           (y, m, daysIn m y - v + 1)"
proof (cases "m = 12")
  case True
  have d: "daysIn 12 y = 31" by (simp add: daysIn_def)
  have "normDate (y + 1) 1 (1 - v) = normDate y 12 (1 - v + 31)"
    using assms(3) by (subst normDate.simps) simp
  also have "\<dots> = (y, 12, 1 - v + 31)"
    using assms(3,4) True d by (intro normDate_id) simp_all
  finally show ?thesis using True d by simp
next
  case False
  have "normDate y (m + 1) (1 - v) = normDate y m (1 - v + daysIn m y)"
    using assms(1,3) by (subst normDate.simps) simp
  also have "\<dots> = (y, m, 1 - v + daysIn m y)"
    using assms(3,4) by (intro normDate_id) simp_all
  finally show ?thesis using False by simp
qed

lemma AddDate_day_from_end:
  assumes "validTime c" "1 \<le> v" "v \<le> daysIn (Month c) (Year c)"
  shows "AddDate c 0 1 (- Day c - v + 1) = c\<lparr>Day := daysIn (Month c) (Year c) - v + 1\<rparr>"
proof -
  from assms(1) have m: "1 \<le> Month c" "Month c \<le> 12"
    and k: "0 \<le> Hour c" "Hour c < 24" "0 \<le> Minute c"
      "Minute c < 60" "0 \<le> Second c" "Second c < 60" "0 \<le> Nanosecond c"
      "Nanosecond c < 1000000000"
    unfolding validTime_def by blast+
  have d: "Day c + (- Day c - v + 1) = 1 - v" by simp
  show ?thesis
    unfolding AddDate_def add_0_right d Date_next_month[OF m k] Let_def
      normDate_back_from_next_month[OF m assms(2,3)]
    by (cases c) simp
qed

lemma next_month_start_back:
  assumes "validTime c"
  shows "AddDate (AddDate (monthStart c) 0 1 0) 0 0 (- v) = AddDate c 0 1 (- Day c - v + 1)"
proof -
  from assms have m: "1 \<le> Month c" "Month c \<le> 12"
    and k: "0 \<le> Hour c" "Hour c < 24" "0 \<le> Minute c"
      "Minute c < 60" "0 \<le> Second c" "Second c < 60" "0 \<le> Nanosecond c"
      "Nanosecond c < 1000000000"
    unfolding validTime_def by blast+
  define y' where "y' = (if Month c = 12 then Year c + 1 else Year c)"
  define m' where "m' = (if Month c = 12 then 1 else Month c + 1)"
  define F where "F = \<lparr>Year = y', Month = m', Day = 1, Hour = Hour c, Minute = Minute c,
      Second = Second c, Nanosecond = Nanosecond c, Loc = Loc c\<rparr>"
  have m': "1 \<le> m'" "m' \<le> 12" using m unfolding m'_def by simp_all
  have n1: "normDate y' m' 1 = (y', m', 1)"
    using daysIn_bounds(1)[of m' y'] by (intro normDate_id) simp_all
  have F: "AddDate (monthStart c) 0 1 0 = F"
    unfolding AddDate_def monthStart_def
    using Date_next_month[OF m k, of "Year c" 1 "Loc c"] n1
    by (simp add: Let_def y'_def m'_def F_def)
  have vF: "validTime F"
    using m' k daysIn_bounds(1)[of m' y'] unfolding validTime_def F_def by simp
  have l: "AddDate F 0 0 (- v) =
      \<lparr>Year = fst (normDate y' m' (1 - v)), Month = fst (snd (normDate y' m' (1 - v))),
       Day = snd (snd (normDate y' m' (1 - v))), Hour = Hour c, Minute = Minute c,
       Second = Second c, Nanosecond = Nanosecond c, Loc = Loc c\<rparr>"
    unfolding AddDate_days[OF vF] by (simp add: F_def)
  have d: "Day c + (- Day c - v + 1) = 1 - v" by simp
  have r: "AddDate c 0 1 (- Day c - v + 1) =
      \<lparr>Year = fst (normDate y' m' (1 - v)), Month = fst (snd (normDate y' m' (1 - v))),
       Day = snd (snd (normDate y' m' (1 - v))), Hour = Hour c, Minute = Minute c,
       Second = Second c, Nanosecond = Nanosecond c, Loc = Loc c\<rparr>"
    unfolding AddDate_def add_0_right d Date_next_month[OF m k] Let_def y'_def m'_def
    by (rule refl)
  show ?thesis unfolding F l r by (rule refl)
qed

text \<open>The position on the time line of the timestamp that \<open>time.Date\<close> builds.\<close>

lemma carry_chain:
  fixes D q r h a b mi e f s :: int
  assumes "q * 24 + r = h + a" "a * 60 + b = mi + e" "e * 60 + f = s"
  shows "(((D + q) * 24 + r) * 60 + b) * 60 + f = ((D * 24 + h) * 60 + mi) * 60 + s"
proof -
  have "(((D + q) * 24 + r) * 60 + b) * 60 + f = ((D * 24 + (q * 24 + r)) * 60 + b) * 60 + f"
    by (simp add: algebra_simps)
  also have "\<dots> = ((D * 24 + h) * 60 + (a * 60 + b)) * 60 + f"
    unfolding assms(1) by (simp add: algebra_simps)
  also have "\<dots> = ((D * 24 + h) * 60 + mi) * 60 + (e * 60 + f)"
    unfolding assms(2) by (simp add: algebra_simps)
  finally show ?thesis unfolding assms(3) .
qed

lemma Date_clock:
  "Hour (Date y mo d h mi s ns loc) = (h + (mi + (s + ns div 1000000000) div 60) div 60) mod 24"
  "Minute (Date y mo d h mi s ns loc) = (mi + (s + ns div 1000000000) div 60) mod 60"
  "Second (Date y mo d h mi s ns loc) = (s + ns div 1000000000) mod 60"
  "Nanosecond (Date y mo d h mi s ns loc) = ns mod 1000000000"
  "Loc (Date y mo d h mi s ns loc) = loc"
  unfolding Date_unfold Let_def Time.select_convs by (rule refl)+

lemma wallSeconds_Date:
  "wallSeconds (Date y mo d h mi s 0 loc) =
     ((dayNumber (y + (mo - 1) div 12) ((mo - 1) mod 12 + 1) d * 24 + h) * 60 + mi) * 60 + s"
proof -
  have z: "s + 0 div 1000000000 = s" by simp
  define e where "e = s div 60"
  define f where "f = s mod 60"
  define a where "a = (mi + e) div 60"
  define b where "b = (mi + e) mod 60"
  define q where "q = (h + a) div 24"
  define r where "r = (h + a) mod 24"
  define D where "D = dayNumber (y + (mo - 1) div 12) ((mo - 1) mod 12 + 1) d"
  have 1: "q * 24 + r = h + a" unfolding q_def r_def by (rule div_mult_mod_eq)
  have 2: "a * 60 + b = mi + e" unfolding a_def b_def by (rule div_mult_mod_eq)
  have 3: "e * 60 + f = s" unfolding e_def f_def by (rule div_mult_mod_eq)
  have "wallSeconds (Date y mo d h mi s 0 loc) = (((D + q) * 24 + r) * 60 + b) * 60 + f"
    unfolding wallSeconds_def absDay_Date Date_clock z dayNumber_linear
      D_def q_def r_def a_def b_def e_def f_def
    by (rule refl)
  also have "\<dots> = ((D * 24 + h) * 60 + mi) * 60 + s"
    by (rule carry_chain[OF 1 2 3])
  finally show ?thesis unfolding D_def .
qed

lemma proc_relative: "active df \<Longrightarrow> \<not> absolute df \<Longrightarrow> \<not> fromEnd df \<Longrightarrow> proc df x = x + val df"
  by (simp add: proc_def)

text \<open>
  When the reconstruction of phase 1 rolls the retained day over into the next month, the
  adjustment for a day counted from the end starts from that month and subtracts the
  retained day all the same: \<open>M+1 D$1\<close> takes January 31, 2021 to March 3.
\<close>

lemma day_from_end_after_rollover:
  "shiftBy ''M+1 D$1'' (utcTime 2021 1 31 0 0 0) = Some (utcTime 2021 3 3 0 0 0)"
  "candidate (zeroTimeShift\<lparr>month := relPart 1, day := fromEndPart 1\<rparr>) (utcTime 2021 1 31 0 0 0) =
     utcTime 2021 3 3 0 0 0"
  by code_simp+

text \<open>
  \<open>Exec\<close> as the week and weekday steps applied to the result of the adjustment of the
  day; every step is an \<open>AddDate\<close> and keeps the time of day.
\<close>

lemma Exec_phase3: "Exec ts t = (if empty ts then t else phase3 ts (afterDayFromEnd ts t))"
  unfolding Exec_def phase3_def afterDayFromEnd_def candidate_def Let_def
  by (cases "empty ts"; cases "fromEnd (day ts)"; simp only: if_True if_False)

lemma AddDate_timeOfDay:
  assumes "validTime r"
  shows "timeOfDay (AddDate r a b c) = timeOfDay r"
proof -
  from assms have k: "0 \<le> Hour r" "Hour r < 24" "0 \<le> Minute r" "Minute r < 60"
      "0 \<le> Second r" "Second r < 60" "0 \<le> Nanosecond r" "Nanosecond r < 1000000000"
    unfolding validTime_def by blast+
  show ?thesis
    unfolding timeOfDay_def AddDate_def Date_clock
      small_div_mod[OF k(7,8)] add_0_right small_div_mod[OF k(5,6)] small_div_mod[OF k(3,4)]
      small_div_mod[OF k(1,2)]
    by (rule refl)
qed

lemma weekStep_timeOfDay:
  assumes "validTime r"
  shows "validTime (fst (weekStep ts r)) \<and> timeOfDay (fst (weekStep ts r)) = timeOfDay r"
proof -
  have two: "validTime (AddDate (AddDate r a b c) a' b' c') \<and>
      timeOfDay (AddDate (AddDate r a b c) a' b' c') = timeOfDay r" for a b c a' b' c'
    by (simp only: AddDate_valid AddDate_timeOfDay[OF AddDate_valid] AddDate_timeOfDay[OF assms]
        simp_thms)
  have one: "validTime (AddDate r a b c) \<and> timeOfDay (AddDate r a b c) = timeOfDay r" for a b c
    by (simp only: AddDate_valid AddDate_timeOfDay[OF assms] simp_thms)
  show ?thesis
    unfolding weekStep_def Let_def
    by (cases "fromBegin (week ts)"; cases "fromEnd (week ts)"; cases "absolute (week ts)";
        simp only: if_True if_False fst_conv two one simp_thms)
qed

lemma phase3_timeOfDay:
  assumes "validTime r"
  shows "validTime (phase3 ts r) \<and> timeOfDay (phase3 ts r) = timeOfDay r"
proof -
  obtain r' b where w: "weekStep ts r = (r', b)" by (cases "weekStep ts r")
  from weekStep_timeOfDay[OF assms, of ts] w
  have r': "validTime r'" "timeOfDay r' = timeOfDay r" by simp_all
  have a: "validTime (AddDate x 0 0 k) \<and> timeOfDay (AddDate x 0 0 k) = timeOfDay x"
    if "validTime x" for x k
    by (simp only: AddDate_valid AddDate_timeOfDay[OF that] simp_thms)
  show ?thesis
    unfolding phase3_def w
    using assms r' a[OF assms] a[OF r'(1)]
    by (cases "active (week ts)"; cases b; cases "active (weekday ts)"; simp)
qed

lemma Exec_timeOfDay:
  assumes "\<not> empty ts"
  shows "validTime (Exec ts t) \<and> timeOfDay (Exec ts t) = timeOfDay (candidate ts t)"
proof -
  have c: "validTime (candidate ts t)" unfolding candidate_def by (rule Date_valid)
  have "timeOfDay (afterDayFromEnd ts t) = timeOfDay (candidate ts t)"
    unfolding afterDayFromEnd_def
    by (cases "fromEnd (day ts)") (simp_all only: if_True if_False AddDate_timeOfDay[OF c])
  with phase3_timeOfDay[OF afterDayFromEnd_valid, of ts ts t] assms show ?thesis
    unfolding Exec_phase3 by simp
qed

lemma Weekday_plus_weeks:
  assumes "validTime r"
  shows "Weekday (AddDate r 0 0 (k * 7)) = Weekday r"
proof -
  have "(Weekday r + k * 7) mod 7 = Weekday r mod 7" by (rule mod_mult_self1)
  also have "\<dots> = Weekday r" by (rule small_div_mod(2)[OF Weekday_range])
  finally show ?thesis unfolding Weekday_AddDate_days[OF assms] .
qed

lemma phase3_relative_absDay:
  assumes "validTime r"
    and "\<not> (active (week ts) \<and> (fromBegin (week ts) \<or> fromEnd (week ts) \<or> absolute (week ts)))"
  shows "absDay (phase3 ts r) =
     absDay r + (if active (week ts) then 7 * val (week ts) else 0)
              + (if active (weekday ts) then val (weekday ts) - Weekday r else 0)"
proof (cases "active (week ts)")
  case False
  then show ?thesis
    unfolding phase3_def
    by (cases "active (weekday ts)") (simp_all add: absDay_AddDate_days[OF assms(1)])
next
  case True
  with assms(2) have n: "\<not> fromBegin (week ts)" "\<not> fromEnd (week ts)" "\<not> absolute (week ts)"
    by blast+
  define r' where "r' = AddDate r 0 0 (val (week ts) * 7)"
  have w: "weekStep ts r = (r', False)"
    unfolding weekStep_def Let_def r'_def using n by simp
  have v: "validTime r'" unfolding r'_def by (rule AddDate_valid)
  have a: "absDay r' = absDay r + val (week ts) * 7"
    unfolding r'_def by (rule absDay_AddDate_days[OF assms(1)])
  have wd: "Weekday r' = Weekday r"
    unfolding r'_def by (rule Weekday_plus_weeks[OF assms(1)])
  show ?thesis
    unfolding phase3_def w using True
    by (cases "active (weekday ts)") (simp_all add: absDay_AddDate_days[OF v] a wd)
qed

section \<open>The claims about Exec\<close>

text \<open>
  Claim C1. The empty pattern gives the structure with \<open>empty\<close> set, and \<open>Exec\<close> of that
  structure returns every timestamp as it is, location included. A pattern of whitespace
  only is not empty: it reaches the whole-string check, which needs at least one unit, and
  \<open>New\<close> rejects it with the generic error, where the claim (and the test table of the
  package, which expects no error for a pattern of four spaces) asks for the identity.
\<close>

theorem New_whitespace_only_pattern:
  "fst (New '''' cached emptyCache) = (Some (zeroTimeShift\<lparr>empty := True\<rparr>), None) \<and>
   Exec (zeroTimeShift\<lparr>empty := True\<rparr>) t = t \<and>
   fst (New ''   '' cached emptyCache) = (None, Some (IllegalPattern ''   ''))"
proof -
  have a: "NewBody '''' = (zeroTimeShift\<lparr>empty := True\<rparr>, None)"
    by (simp add: NewBody_def)
  have b: "NewBody ''   '' = (zeroTimeShift, Some (IllegalPattern ''   ''))"
    by code_simp
  show ?thesis
    by (simp add: New_cache_ok cache_ok_emptyCache a b Exec_def)
qed

lemma weekday_shift_examples:
  "shiftBy ''w3'' (utcTime 2021 2 22 14 55 22) = Some (utcTime 2021 2 24 14 55 22)"
  "shiftBy ''w0'' (utcTime 2021 2 22 14 55 22) = Some (utcTime 2021 2 21 14 55 22)"
  by code_simp+

text \<open>
  Claim C5. When the weekday unit is active and the week unit is not, \<open>Exec\<close> adds the
  signed number of days \<open>value - weekday_of(candidate)\<close> to the result of the earlier
  phases, with no modulo: the day number changes by exactly that amount. For a weekday value
  from 0 to 6 (the only ones \<open>New\<close> accepts) the result falls on that weekday and lies at
  most six days before or after. \<open>w3\<close> moves the Monday 2021-02-22 forward to 2021-02-24,
  \<open>w0\<close> moves it back to 2021-02-21.
\<close>

theorem weekday_snap_is_signed_shift:
  assumes "\<not> empty ts" "\<not> active (week ts)" "active (weekday ts)"
  shows "Exec ts t =
           AddDate (afterDayFromEnd ts t) 0 0
             (val (weekday ts) - Weekday (afterDayFromEnd ts t)) \<and>
         absDay (Exec ts t) =
           absDay (afterDayFromEnd ts t) + (val (weekday ts) - Weekday (afterDayFromEnd ts t)) \<and>
         (0 \<le> val (weekday ts) \<and> val (weekday ts) \<le> 6 \<longrightarrow>
            Weekday (Exec ts t) = val (weekday ts) \<and>
            - 6 \<le> absDay (Exec ts t) - absDay (afterDayFromEnd ts t) \<and>
            absDay (Exec ts t) - absDay (afterDayFromEnd ts t) \<le> 6) \<and>
         shiftBy ''w3'' (utcTime 2021 2 22 14 55 22) = Some (utcTime 2021 2 24 14 55 22) \<and>
         shiftBy ''w0'' (utcTime 2021 2 22 14 55 22) = Some (utcTime 2021 2 21 14 55 22)"
proof -
  define r where "r = afterDayFromEnd ts t"
  define v where "v = val (weekday ts)"
  have vr: "validTime r" unfolding r_def by (rule afterDayFromEnd_valid)
  have e: "Exec ts t = AddDate r 0 0 (v - Weekday r)"
    using assms unfolding Exec_phases r_def v_def Let_def by simp
  have a: "absDay (Exec ts t) = absDay r + (v - Weekday r)"
    unfolding e by (rule absDay_AddDate_days[OF vr])
  have w: "Weekday (Exec ts t) = v" "- 6 \<le> absDay (Exec ts t) - absDay r"
      "absDay (Exec ts t) - absDay r \<le> 6" if "0 \<le> v" "v \<le> 6"
  proof -
    have "Weekday (Exec ts t) = (Weekday r + (v - Weekday r)) mod 7"
      unfolding e by (rule Weekday_AddDate_days[OF vr])
    also have "Weekday r + (v - Weekday r) = v" by simp
    also have "v mod 7 = v" using that by (intro small_div_mod(2)) simp_all
    finally show "Weekday (Exec ts t) = v" .
    from Weekday_range[of r] that a
    show "- 6 \<le> absDay (Exec ts t) - absDay r" "absDay (Exec ts t) - absDay r \<le> 6"
      by linarith+
  qed
  show ?thesis
    using e a w weekday_shift_examples unfolding r_def v_def by blast
qed

theorem weekday_snap_is_signed_shift_witness:
  "\<not> empty (zeroTimeShift\<lparr>weekday := absPart 3\<rparr>) \<and>
   \<not> active (week (zeroTimeShift\<lparr>weekday := absPart 3\<rparr>)) \<and>
   active (weekday (zeroTimeShift\<lparr>weekday := absPart 3\<rparr>)) \<and>
   0 \<le> val (weekday (zeroTimeShift\<lparr>weekday := absPart 3\<rparr>)) \<and>
   val (weekday (zeroTimeShift\<lparr>weekday := absPart 3\<rparr>)) \<le> 6 \<and>
   fst (New ''w3'' False emptyCache) = (Some (zeroTimeShift\<lparr>weekday := absPart 3\<rparr>), None) \<and>
   Weekday (Exec (zeroTimeShift\<lparr>weekday := absPart 3\<rparr>) (utcTime 2021 2 22 14 55 22)) = 3 \<and>
   absDay (Exec (zeroTimeShift\<lparr>weekday := absPart 3\<rparr>) (utcTime 2021 2 22 14 55 22)) =
     absDay (utcTime 2021 2 22 14 55 22) + 2"
proof -
  let ?ts = "zeroTimeShift\<lparr>weekday := absPart 3\<rparr>"
  let ?t = "utcTime 2021 2 22 14 55 22"
  have h: "\<not> empty ?ts" "\<not> active (week ?ts)" "active (weekday ?ts)"
    by (simp_all add: zeroTimeShift_def zeroPartDef_def absPart_def)
  have v: "val (weekday ?ts) = 3"
    by (simp add: absPart_def)
  have n: "fst (New ''w3'' False emptyCache) = (Some ?ts, None)"
  proof -
    have "NewBody ''w3'' = (?ts, None)" by code_simp
    then show ?thesis by (simp add: New_cache_ok cache_ok_emptyCache)
  qed
  have r: "afterDayFromEnd ?ts ?t = ?t"
    by code_simp
  have w: "Weekday ?t = 1"
    by code_simp
  note T = weekday_snap_is_signed_shift [OF h, of ?t, unfolded v r w]
  have b: "(0::int) \<le> 3" "(3::int) \<le> 6" by simp_all
  from T have "absDay (Exec ?ts ?t) = absDay ?t + (3 - 1)" by blast
  then have d: "absDay (Exec ?ts ?t) = absDay ?t + 2" by simp
  from T b have e: "Weekday (Exec ?ts ?t) = 3" by blast
  show ?thesis
    using h n d e by (simp add: absPart_def)
qed

lemma week_examples:
  "shiftBy ''W^1 w0'' (utcTime 2021 1 20 0 0 0) = Some (utcTime 2021 1 3 0 0 0)"
  "shiftBy ''W^2 w0'' (utcTime 2021 1 20 0 0 0) = Some (utcTime 2021 1 10 0 0 0)"
  by code_simp+

text \<open>
  Claim C4. For a structure that \<open>New\<close> has built with the week unit active under the
  anchor \<open>^\<close>, the value of the week is at least 1 and \<open>Exec\<close> moves the result of
  the earlier phases to the first day of its month, adds
  \<open>(wd - weekday_of(month_start)) mod 7 + 7 * (value - 1)\<close> days and returns that, with no
  later weekday step. The result falls on the weekday \<open>wd\<close> and lies in the
  \<open>value\<close>-th run of seven days from the first of the month, so it is the \<open>value\<close>-th
  occurrence of that weekday counted from the start of the month. \<open>W^1 w0\<close> takes
  2021-01-20 to 2021-01-03.
\<close>

theorem week_from_begin_is_nth_weekday_of_month:
  assumes "cache_ok cache" "fst (New pattern cached cache) = (Some ts, None)"
    and "active (week ts)" "fromBegin (week ts)"
  shows "1 \<le> val (week ts) \<and>
         (let r = afterDayFromEnd ts t;
              wd = weekRef ts r;
              first = monthStart r;
              shift = (wd - Weekday first) mod 7 + 7 * (val (week ts) - 1)
          in AddDate r 0 0 (- Day r + 1) = first \<and>
             Exec ts t = AddDate first 0 0 shift \<and>
             absDay (Exec ts t) = absDay first + shift \<and>
             Weekday (Exec ts t) = wd \<and>
             7 * (val (week ts) - 1) \<le> absDay (Exec ts t) - absDay first \<and>
             absDay (Exec ts t) - absDay first < 7 * val (week ts)) \<and>
         shiftBy ''W^1 w0'' (utcTime 2021 1 20 0 0 0) = Some (utcTime 2021 1 3 0 0 0)"
proof -
  define r where "r = afterDayFromEnd ts t"
  define wd where "wd = weekRef ts r"
  define first where "first = monthStart r"
  define s0 where "s0 = (wd - Weekday first) mod 7"
  define shift where "shift = s0 + 7 * (val (week ts) - 1)"
  have ne: "\<not> empty ts"
    using assms(3) by (intro New_active_not_empty[OF assms(1,2)]) simp
  have inv: "specInv ts" by (rule New_inv(1)[OF assms(1,2)])
  then have rng: "active (weekday ts) \<longrightarrow> 0 \<le> val (weekday ts) \<and> val (weekday ts) \<le> 6"
    unfolding specInv_def by blast
  from inv assms(4) have v1: "1 \<le> val (week ts)"
    unfolding specInv_def by blast
  have vr: "validTime r" unfolding r_def by (rule afterDayFromEnd_valid)
  have vf: "validTime first" unfolding first_def by (rule monthStart_valid[OF vr])
  have wd: "0 \<le> wd \<and> wd < 7"
    using rng Weekday_range[of r] unfolding wd_def weekRef_def
    by (cases "active (weekday ts)") simp_all
  then have wd: "0 \<le> wd" "wd < 7" by simp_all
  have s0: "0 \<le> s0" "s0 < 7"
    unfolding s0_def by (rule pos_mod_sign pos_mod_bound, simp)+
  have ws: "weekStep ts r = (AddDate first 0 0 shift, True)"
    using weekStep_fromBegin[OF assms(4) vr wd[unfolded wd_def]]
    unfolding shift_def s0_def wd_def first_def .
  have e: "Exec ts t = AddDate first 0 0 shift"
    unfolding Exec_phases r_def[symmetric] ws using ne assms(3) by simp
  have a: "absDay (Exec ts t) = absDay first + shift"
    unfolding e by (rule absDay_AddDate_days[OF vf])
  have "Weekday (Exec ts t) = (Weekday first + shift) mod 7"
    unfolding e by (rule Weekday_AddDate_days[OF vf])
  also have "\<dots> = wd"
    unfolding shift_def s0_def by (rule weekday_after_shift[OF wd])
  finally have w: "Weekday (Exec ts t) = wd" .
  have b1: "7 * (val (week ts) - 1) \<le> absDay (Exec ts t) - absDay first"
    using a s0 unfolding shift_def by linarith
  have "7 * (val (week ts) - 1) = 7 * val (week ts) - 7"
    by simp
  then have b2: "absDay (Exec ts t) - absDay first < 7 * val (week ts)"
    using a s0 unfolding shift_def by linarith
  have m: "AddDate r 0 0 (- Day r + 1) = first"
    unfolding first_def by (rule AddDate_to_monthStart[OF vr])
  show ?thesis
    unfolding Let_def r_def[symmetric] wd_def[symmetric] first_def[symmetric] s0_def[symmetric]
      shift_def[symmetric]
    using v1 m e a w b1 b2 week_examples(1) by blast
qed

theorem week_from_begin_is_nth_weekday_of_month_witness:
  "cache_ok emptyCache \<and>
   fst (New ''W^1 w0'' False emptyCache) =
     (Some (zeroTimeShift\<lparr>week := fromBeginPart 1, weekday := absPart 0\<rparr>), None) \<and>
   active (week (zeroTimeShift\<lparr>week := fromBeginPart 1, weekday := absPart 0\<rparr>)) \<and>
   fromBegin (week (zeroTimeShift\<lparr>week := fromBeginPart 1, weekday := absPart 0\<rparr>)) \<and>
   Weekday (Exec (zeroTimeShift\<lparr>week := fromBeginPart 1, weekday := absPart 0\<rparr>)
              (utcTime 2021 1 20 0 0 0)) = 0 \<and>
   absDay (Exec (zeroTimeShift\<lparr>week := fromBeginPart 1, weekday := absPart 0\<rparr>)
              (utcTime 2021 1 20 0 0 0)) - absDay (utcTime 2021 1 1 0 0 0) < 7"
proof -
  let ?ts = "zeroTimeShift\<lparr>week := fromBeginPart 1, weekday := absPart 0\<rparr>"
  let ?t = "utcTime 2021 1 20 0 0 0"
  have n: "fst (New ''W^1 w0'' False emptyCache) = (Some ?ts, None)"
  proof -
    have "NewBody ''W^1 w0'' = (?ts, None)" by code_simp
    then show ?thesis by (simp add: New_cache_ok cache_ok_emptyCache)
  qed
  have h: "active (week ?ts)" "fromBegin (week ?ts)"
    by (simp_all add: fromBeginPart_def)
  have r: "afterDayFromEnd ?ts ?t = ?t"
    by code_simp
  have m: "monthStart ?t = utcTime 2021 1 1 0 0 0"
    by (simp add: monthStart_def utcTime_def)
  have wr: "weekRef ?ts ?t = 0"
    by (simp add: weekRef_def absPart_def)
  have v: "val (week ?ts) = 1"
    by (simp add: fromBeginPart_def)
  note T = week_from_begin_is_nth_weekday_of_month
             [OF cache_ok_emptyCache n h, of ?t, unfolded Let_def r m wr v]
  from T have a: "Weekday (Exec ?ts ?t) = 0" by blast
  from T have "absDay (Exec ?ts ?t) - absDay (utcTime 2021 1 1 0 0 0) < 7 * 1" by blast
  then have b: "absDay (Exec ?ts ?t) - absDay (utcTime 2021 1 1 0 0 0) < 7" by simp
  show ?thesis
    using cache_ok_emptyCache n h a b by blast
qed

lemma day_from_end_examples:
  "shiftBy ''D$1'' (utcTime 2000 2 13 14 55 22) = Some (utcTime 2000 2 29 14 55 22)"
  "shiftBy ''Y+100 D$1'' (utcTime 2000 2 13 14 55 22) = Some (utcTime 2100 2 28 14 55 22)"
  "shiftBy ''D$2'' (utcTime 2000 2 13 14 55 22) = Some (utcTime 2000 2 28 14 55 22)"
  by code_simp+

lemma proc_fromEnd: "fromEnd df \<Longrightarrow> proc df v = v"
  by (simp add: proc_def)

text \<open>
  When the candidate of phase 1 still holds the day of month of the input and the value
  does not exceed the length of the candidate's month, and neither the week nor the weekday
  unit is active, \<open>Exec\<close> yields the candidate with its day replaced by the \<open>value\<close>-th
  day counted backward from the end of the candidate's month.
\<close>

lemma day_from_end_without_rollover:
  assumes "cache_ok cache" "fst (New pattern cached cache) = (Some ts, None)"
    and "fromEnd (day ts)" "\<not> active (week ts)" "\<not> active (weekday ts)"
    and "Day (candidate ts t) = Day t"
    and "val (day ts) \<le> daysIn (Month (candidate ts t)) (Year (candidate ts t))"
  shows "1 \<le> val (day ts) \<and>
         Exec ts t =
           (candidate ts t)\<lparr>Day := daysIn (Month (candidate ts t)) (Year (candidate ts t))
                                     - val (day ts) + 1\<rparr> \<and>
         shiftBy ''D$1'' (utcTime 2000 2 13 14 55 22) = Some (utcTime 2000 2 29 14 55 22) \<and>
         shiftBy ''Y+100 D$1'' (utcTime 2000 2 13 14 55 22) = Some (utcTime 2100 2 28 14 55 22)"
proof -
  define c where "c = candidate ts t"
  have ne: "\<not> empty ts"
    using assms(3) by (intro New_active_not_empty[OF assms(1,2)]) simp
  have "specInv ts" by (rule New_inv(1)[OF assms(1,2)])
  with assms(3) have v1: "1 \<le> val (day ts)"
    unfolding specInv_def by blast
  have vc: "validTime c" unfolding c_def candidate_def by (rule Date_valid)
  have "afterDayFromEnd ts t = AddDate c 0 1 (- Day c - val (day ts) + 1)"
    unfolding afterDayFromEnd_def c_def proc_fromEnd[OF assms(3)] assms(6) using assms(3) by simp
  also have "\<dots> = c\<lparr>Day := daysIn (Month c) (Year c) - val (day ts) + 1\<rparr>"
    using assms(7) by (intro AddDate_day_from_end[OF vc v1]) (simp add: c_def)
  finally have a: "afterDayFromEnd ts t = c\<lparr>Day := daysIn (Month c) (Year c) - val (day ts) + 1\<rparr>" .
  have "Exec ts t = afterDayFromEnd ts t"
    unfolding Exec_phases Let_def using ne assms(4,5) by simp
  with a v1 day_from_end_examples(1,2) show ?thesis
    unfolding c_def by simp
qed

text \<open>
  The week unit acts behind the adjustment of the day: \<open>D$1 W+1\<close> takes 2000-02-13 to the
  last day of February and then one week further, to March 7.
\<close>

lemma day_from_end_then_week_example:
  "fst (New ''D$1 W+1'' False emptyCache) =
     (Some (zeroTimeShift\<lparr>day := fromEndPart 1, week := relPart 1\<rparr>), None) \<and>
   active (day (zeroTimeShift\<lparr>day := fromEndPart 1, week := relPart 1\<rparr>)) \<and>
   fromEnd (day (zeroTimeShift\<lparr>day := fromEndPart 1, week := relPart 1\<rparr>)) \<and>
   Exec (zeroTimeShift\<lparr>day := fromEndPart 1, week := relPart 1\<rparr>) (utcTime 2000 2 13 14 55 22) =
     utcTime 2000 3 7 14 55 22 \<and>
   daysIn 3 2000 = 31 \<and> daysIn 2 2000 = 29 \<and>
   Day (utcTime 2000 3 7 14 55 22) \<noteq>
     daysIn 3 2000 - val (day (zeroTimeShift\<lparr>day := fromEndPart 1, week := relPart 1\<rparr>)) + 1"
proof -
  let ?ts = "zeroTimeShift\<lparr>day := fromEndPart 1, week := relPart 1\<rparr>"
  have "NewBody ''D$1 W+1'' = (?ts, None)" by code_simp
  then have n: "fst (New ''D$1 W+1'' False emptyCache) = (Some ?ts, None)"
    by (simp add: New_cache_ok cache_ok_emptyCache)
  have e: "Exec ?ts (utcTime 2000 2 13 14 55 22) = utcTime 2000 3 7 14 55 22"
    by code_simp
  have d: "daysIn 3 2000 = 31" "daysIn 2 2000 = 29" by code_simp+
  show ?thesis
    using n e d by (simp add: fromEndPart_def utcTime_def)
qed

text \<open>
  The adjustment subtracts the day of month of the input (the local \<open>day\<close>), not the day
  the candidate holds. The two differ when the reconstruction of phase 1 rolls the retained
  day over into the next month.
\<close>

lemma day_from_end_rollover_examples:
  "shiftBy ''Y+100 D$1'' (utcTime 2000 2 29 14 55 22) = Some (utcTime 2100 3 3 14 55 22)"
  "candidate (zeroTimeShift\<lparr>year := relPart 100, day := fromEndPart 1\<rparr>) (utcTime 2000 2 29 14 55 22) =
     utcTime 2100 3 1 14 55 22"
  "daysIn 2 2100 = 28" "daysIn 3 2100 = 31" "daysIn 2 2021 = 28" "daysIn 3 2021 = 31"
  by code_simp+

text \<open>
  Claim C2. The two examples of the claim hold: \<open>D$1\<close> takes 2000-02-13T14:55:22Z to
  February 29, 2000, and \<open>Y+100 D$1\<close> takes it to February 28, 2100. The general statement,
  that \<open>Exec\<close> yields the \<open>value\<close>-th day counted backward from the end of the month,
  fails on the code when phase 1 rolls the day over: \<open>Y+100 D$1\<close> takes 2000-02-29 to
  2100-03-03 (the candidate is 2100-03-01, and the adjustment subtracts the 29 of the
  input), and \<open>M+1 D$1\<close> takes 2021-01-31 to 2021-03-03 (the candidate is 2021-03-03).
  March 3 is the last day neither of February nor of March.
\<close>

theorem day_from_end_stale_day_after_rollover:
  "shiftBy ''D$1'' (utcTime 2000 2 13 14 55 22) = Some (utcTime 2000 2 29 14 55 22) \<and>
   shiftBy ''Y+100 D$1'' (utcTime 2000 2 13 14 55 22) = Some (utcTime 2100 2 28 14 55 22) \<and>
   shiftBy ''Y+100 D$1'' (utcTime 2000 2 29 14 55 22) = Some (utcTime 2100 3 3 14 55 22) \<and>
   candidate (zeroTimeShift\<lparr>year := relPart 100, day := fromEndPart 1\<rparr>)
     (utcTime 2000 2 29 14 55 22) = utcTime 2100 3 1 14 55 22 \<and>
   daysIn 2 2100 = 28 \<and> daysIn 3 2100 = 31 \<and>
   shiftBy ''M+1 D$1'' (utcTime 2021 1 31 0 0 0) = Some (utcTime 2021 3 3 0 0 0) \<and>
   candidate (zeroTimeShift\<lparr>month := relPart 1, day := fromEndPart 1\<rparr>)
     (utcTime 2021 1 31 0 0 0) = utcTime 2021 3 3 0 0 0 \<and>
   daysIn 2 2021 = 28 \<and> daysIn 3 2021 = 31"
  using day_from_end_examples(1,2) day_from_end_rollover_examples day_from_end_after_rollover
  by blast

lemma spec_day_from_end_example:
  "afterDayFromEnd (zeroTimeShift\<lparr>day := fromEndPart 1\<rparr>) (utcTime 2000 2 13 14 55 22) =
     utcTime 2000 2 29 14 55 22"
  "specDayFromEnd (candidate (zeroTimeShift\<lparr>day := fromEndPart 1\<rparr>) (utcTime 2000 2 13 14 55 22))
     13 1 = utcTime 2000 2 17 14 55 22"
  "Exec (zeroTimeShift\<lparr>day := fromEndPart 1\<rparr>) (utcTime 2000 2 13 14 55 22) =
     utcTime 2000 2 29 14 55 22"
  by code_simp+

lemma day_from_end_week_example:
  "NewBody ''  Y+1 M+2 D$3 W+2 h-6 m+20 s-30'' =
     (zeroTimeShift\<lparr>year := relPart 1, month := relPart 2, day := fromEndPart 3,
        week := relPart 2, hour := relPart (- 6), minute := relPart 20,
        second := relPart (- 30)\<rparr>, None)"
  "candidate (zeroTimeShift\<lparr>year := relPart 1, month := relPart 2, day := fromEndPart 3,
        week := relPart 2, hour := relPart (- 6), minute := relPart 20,
        second := relPart (- 30)\<rparr>) (utcTime 2020 6 13 14 55 22) = utcTime 2021 8 13 9 14 52"
  "phase3 (zeroTimeShift\<lparr>year := relPart 1, month := relPart 2, day := fromEndPart 3,
        week := relPart 2, hour := relPart (- 6), minute := relPart 20,
        second := relPart (- 30)\<rparr>)
     (AddDate (AddDate (monthStart (utcTime 2021 8 13 9 14 52)) 0 1 0) 0 0 (- 3)) =
     utcTime 2021 9 12 9 14 52"
  "AddDate (AddDate (monthStart (utcTime 2021 8 13 9 14 52)) 0 1 0) 0 0 (- 3) =
     utcTime 2021 8 29 9 14 52"
  "shiftBy ''  Y+1 M+2 D$3 W+2 h-6 m+20 s-30'' (utcTime 2020 6 13 14 55 22) =
     Some (utcTime 2021 9 12 9 14 52)"
  "shiftBy ''D+6 W+1 w2'' (utcTime 2021 2 1 0 44 0) = Some (utcTime 2021 2 16 0 44 0)"
  by code_simp+

text \<open>
  Claim C3, as amended. For every structure that \<open>New\<close> has built with the day anchored
  from the end, whatever its other units, and every timestamp at which the candidate of
  phase 1 holds the day of month of the input, phase 2 of \<open>Exec\<close> takes the candidate's
  month-start, advances one month and steps back \<open>value\<close> days; this is the same as
  advancing the candidate itself by one month and stepping back
  \<open>originalDayOfMonth + value - 1\<close> days in one normalising reconstruction, where
  \<open>originalDayOfMonth\<close> is the day the candidate holds and \<open>value\<close>, at least 1, is the
  magnitude of the day part. The result of \<open>Exec\<close> is the week and weekday steps applied to
  the result of this adjustment.
\<close>

theorem day_from_end_adjustment:
  assumes "cache_ok cache" "fst (New pattern cached cache) = (Some ts, None)"
    and "fromEnd (day ts)"
    and "Day (candidate ts t) = Day t"
  shows "Exec ts t =
           phase3 ts (AddDate (AddDate (monthStart (candidate ts t)) 0 1 0) 0 0 (- val (day ts))) \<and>
         Exec ts t =
           phase3 ts (AddDate (candidate ts t) 0 1
                        (- (Day (candidate ts t) + val (day ts) - 1))) \<and>
         1 \<le> val (day ts)"
proof -
  define c where "c = candidate ts t"
  define v where "v = val (day ts)"
  have ne: "\<not> empty ts"
    using assms(3) by (intro New_active_not_empty[OF assms(1,2)]) simp
  have "specInv ts" by (rule New_inv(1)[OF assms(1,2)])
  with assms(3) have v1: "1 \<le> val (day ts)"
    unfolding specInv_def by blast
  have vc: "validTime c" unfolding c_def candidate_def by (rule Date_valid)
  have n: "- Day c - v + 1 = - (Day c + v - 1)" by simp
  have a: "afterDayFromEnd ts t = AddDate c 0 1 (- (Day c + v - 1))"
    unfolding afterDayFromEnd_def proc_fromEnd[OF assms(3)] assms(4)[symmetric]
      c_def[symmetric] v_def[symmetric] n
    using assms(3) by simp
  have m: "AddDate (AddDate (monthStart c) 0 1 0) 0 0 (- v) = AddDate c 0 1 (- (Day c + v - 1))"
    unfolding next_month_start_back[OF vc] n by (rule refl)
  have e: "Exec ts t = phase3 ts (afterDayFromEnd ts t)"
    unfolding Exec_phase3 using ne by simp
  have e1: "Exec ts t = phase3 ts (AddDate (AddDate (monthStart c) 0 1 0) 0 0 (- v))"
    unfolding e a m by (rule refl)
  have e2: "Exec ts t = phase3 ts (AddDate c 0 1 (- (Day c + v - 1)))"
    unfolding e a by (rule refl)
  from e1 e2 v1 show ?thesis
    unfolding c_def v_def by blast
qed

theorem day_from_end_adjustment_witness:
  "cache_ok emptyCache \<and>
   fst (New ''  Y+1 M+2 D$3 W+2 h-6 m+20 s-30'' False emptyCache) =
     (Some (zeroTimeShift\<lparr>year := relPart 1, month := relPart 2, day := fromEndPart 3,
        week := relPart 2, hour := relPart (- 6), minute := relPart 20,
        second := relPart (- 30)\<rparr>), None) \<and>
   fromEnd (day (zeroTimeShift\<lparr>year := relPart 1, month := relPart 2, day := fromEndPart 3,
        week := relPart 2, hour := relPart (- 6), minute := relPart 20,
        second := relPart (- 30)\<rparr>)) \<and>
   candidate (zeroTimeShift\<lparr>year := relPart 1, month := relPart 2, day := fromEndPart 3,
        week := relPart 2, hour := relPart (- 6), minute := relPart 20,
        second := relPart (- 30)\<rparr>) (utcTime 2020 6 13 14 55 22) = utcTime 2021 8 13 9 14 52 \<and>
   Day (utcTime 2021 8 13 9 14 52) = Day (utcTime 2020 6 13 14 55 22) \<and>
   AddDate (AddDate (monthStart (utcTime 2021 8 13 9 14 52)) 0 1 0) 0 0 (- 3) =
     utcTime 2021 8 29 9 14 52 \<and>
   Exec (zeroTimeShift\<lparr>year := relPart 1, month := relPart 2, day := fromEndPart 3,
        week := relPart 2, hour := relPart (- 6), minute := relPart 20,
        second := relPart (- 30)\<rparr>) (utcTime 2020 6 13 14 55 22) = utcTime 2021 9 12 9 14 52"
proof -
  let ?ts = "zeroTimeShift\<lparr>year := relPart 1, month := relPart 2, day := fromEndPart 3,
        week := relPart 2, hour := relPart (- 6), minute := relPart 20,
        second := relPart (- 30)\<rparr>"
  let ?t = "utcTime 2020 6 13 14 55 22"
  have n: "fst (New ''  Y+1 M+2 D$3 W+2 h-6 m+20 s-30'' False emptyCache) = (Some ?ts, None)"
    by (simp add: New_cache_ok cache_ok_emptyCache day_from_end_week_example(1))
  have h: "fromEnd (day ?ts)"
    by (simp add: fromEndPart_def)
  note c = day_from_end_week_example(2)
  have d0: "Day (utcTime 2021 8 13 9 14 52) = Day ?t"
    by (simp add: utcTime_def)
  have d: "Day (candidate ?ts ?t) = Day ?t"
    unfolding c by (rule d0)
  have v: "val (day ?ts) = 3"
    by (simp add: fromEndPart_def)
  note T = day_from_end_adjustment [OF cache_ok_emptyCache n h d, unfolded c v]
  from T have "Exec ?ts ?t =
      phase3 ?ts (AddDate (AddDate (monthStart (utcTime 2021 8 13 9 14 52)) 0 1 0) 0 0 (- 3))"
    by blast
  then have e: "Exec ?ts ?t = utcTime 2021 9 12 9 14 52"
    unfolding day_from_end_week_example(3) .
  show ?thesis
    using cache_ok_emptyCache n h c d0 day_from_end_week_example(4) e by blast
qed

text \<open>
  The algorithm as the claim states it, from the month-start of the candidate, does not
  give the result of phase 2: for \<open>D$1\<close> on 2000-02-13T14:55:22Z it gives February 17,
  where \<open>Exec\<close> (and the test of the package) gives February 29.
\<close>

theorem day_from_end_spec_algorithm_counterexample:
  "fst (New ''D$1'' False emptyCache) = (Some (zeroTimeShift\<lparr>day := fromEndPart 1\<rparr>), None) \<and>
   Day (utcTime 2000 2 13 14 55 22) = 13 \<and>
   val (day (zeroTimeShift\<lparr>day := fromEndPart 1\<rparr>)) = 1 \<and>
   afterDayFromEnd (zeroTimeShift\<lparr>day := fromEndPart 1\<rparr>) (utcTime 2000 2 13 14 55 22) =
     utcTime 2000 2 29 14 55 22 \<and>
   specDayFromEnd (candidate (zeroTimeShift\<lparr>day := fromEndPart 1\<rparr>) (utcTime 2000 2 13 14 55 22))
     13 1 = utcTime 2000 2 17 14 55 22 \<and>
   utcTime 2000 2 29 14 55 22 \<noteq> utcTime 2000 2 17 14 55 22"
proof -
  have "NewBody ''D$1'' = (zeroTimeShift\<lparr>day := fromEndPart 1\<rparr>, None)" by code_simp
  then have n: "fst (New ''D$1'' False emptyCache) = (Some (zeroTimeShift\<lparr>day := fromEndPart 1\<rparr>), None)"
    by (simp add: New_cache_ok cache_ok_emptyCache)
  show ?thesis
    using n spec_day_from_end_example(1,2) by (simp add: utcTime_def fromEndPart_def)
qed

lemma overflow_examples:
  "shiftBy ''Y+1 M+22 D+33 h+66 m+200 s+300'' (utcTime 2020 6 13 14 55 22) =
     Some (utcTime 2023 5 19 12 20 22)"
  "shiftBy ''M+22 D+33 h+66 m+200 s+300'' (utcTime 2020 6 13 14 55 22) =
     Some (utcTime 2022 5 19 12 20 22)"
  by code_simp+

lemma carry_week_example:
  "NewBody ''Y+1 M+22 D+33 W+2 h+66 m+200 s+300'' =
     (zeroTimeShift\<lparr>year := relPart 1, month := relPart 22, day := relPart 33,
        week := relPart 2, hour := relPart 66, minute := relPart 200,
        second := relPart 300\<rparr>, None)"
  "Exec (zeroTimeShift\<lparr>year := relPart 1, month := relPart 22, day := relPart 33,
        week := relPart 2, hour := relPart 66, minute := relPart 200,
        second := relPart 300\<rparr>) (utcTime 2020 6 13 14 55 22) = utcTime 2023 6 2 12 20 22"
  "candidate (zeroTimeShift\<lparr>year := relPart 1, month := relPart 22, day := relPart 33,
        week := relPart 2, hour := relPart 66, minute := relPart 200,
        second := relPart 300\<rparr>) (utcTime 2020 6 13 14 55 22) = utcTime 2023 5 19 12 20 22"
  by code_simp+

text \<open>
  Claim C6, as amended. A field that a relative part has taken out of its natural range is
  normalised by carry when the timestamp is reconstructed, never by wrap-around. For every
  structure and every timestamp, the candidate that \<open>time.Date\<close> builds from the
  substituted fields has all fields in range, and its position on the time line is the one
  that the substituted fields denote when the excess of each is counted in the next larger
  unit (months beyond 12 into years, seconds into minutes, minutes into hours, hours into
  days, days into months). For every structure that is not empty, with or without a day
  anchored from the end, a week or a weekday, \<open>Exec\<close> returns the adjustment of the day and
  the week and weekday steps applied to this candidate; the result has all fields in range
  and the time of day of the candidate, the seconds carried into the minutes and the minutes
  into the hours; and when no anchor and no absolute week is involved, the result lies on
  the time line at the candidate's position moved by whole days, seven for each week of the
  week unit and the signed distance to the weekday. An active relative part adds its value
  to the field. \<open>Y+1 M+22 D+33 h+66 m+200 s+300\<close> takes 2020-06-13T14:55:22Z to
  2023-05-19T12:20:22Z; without the clause \<open>Y+1\<close> the result is 2022-05-19T12:20:22Z.
\<close>

theorem relative_overflow_is_carried:
  "validTime (candidate ts t) \<and>
   wallSeconds (candidate ts t) =
     ((dayNumber (proc (year ts) (Year t) + (proc (month ts) (Month t) - 1) div 12)
                 ((proc (month ts) (Month t) - 1) mod 12 + 1)
                 (proc (day ts) (Day t)) * 24
        + proc (hour ts) (Hour t)) * 60
      + proc (minute ts) (Minute t)) * 60
     + proc (second ts) (Second t) \<and>
   (\<not> empty ts \<longrightarrow>
      Exec ts t =
        phase3 ts (if fromEnd (day ts)
                   then AddDate (candidate ts t) 0 1 (- proc (day ts) (Day t) - val (day ts) + 1)
                   else candidate ts t) \<and>
      validTime (Exec ts t) \<and>
      Second (Exec ts t) = proc (second ts) (Second t) mod 60 \<and>
      Minute (Exec ts t) =
        (proc (minute ts) (Minute t) + proc (second ts) (Second t) div 60) mod 60 \<and>
      Hour (Exec ts t) =
        (proc (hour ts) (Hour t)
         + (proc (minute ts) (Minute t) + proc (second ts) (Second t) div 60) div 60) mod 24 \<and>
      (\<not> fromEnd (day ts) \<and>
       \<not> (active (week ts) \<and> (fromBegin (week ts) \<or> fromEnd (week ts) \<or> absolute (week ts)))
       \<longrightarrow>
         wallSeconds (Exec ts t) =
           wallSeconds (candidate ts t)
           + 86400 * ((if active (week ts) then 7 * val (week ts) else 0)
                      + (if active (weekday ts)
                         then val (weekday ts) - Weekday (candidate ts t) else 0)))) \<and>
   (active df \<and> \<not> absolute df \<and> \<not> fromEnd df \<longrightarrow> proc df x = x + val df) \<and>
   shiftBy ''Y+1 M+22 D+33 h+66 m+200 s+300'' (utcTime 2020 6 13 14 55 22) =
     Some (utcTime 2023 5 19 12 20 22) \<and>
   shiftBy ''M+22 D+33 h+66 m+200 s+300'' (utcTime 2020 6 13 14 55 22) =
     Some (utcTime 2022 5 19 12 20 22) \<and>
   shiftBy ''  Y+1 M+2 D$3 W+2 h-6 m+20 s-30'' (utcTime 2020 6 13 14 55 22) =
     Some (utcTime 2021 9 12 9 14 52) \<and>
   shiftBy ''D+6 W+1 w2'' (utcTime 2021 2 1 0 44 0) = Some (utcTime 2021 2 16 0 44 0)"
proof -
  define c where "c = candidate ts t"
  define h' where "h' = proc (hour ts) (Hour t)"
  define mi' where "mi' = proc (minute ts) (Minute t)"
  define s' where "s' = proc (second ts) (Second t)"
  define E where "E = Exec ts t"
  have vc: "validTime c" unfolding c_def candidate_def by (rule Date_valid)
  have w: "wallSeconds c =
     ((dayNumber (proc (year ts) (Year t) + (proc (month ts) (Month t) - 1) div 12)
                 ((proc (month ts) (Month t) - 1) mod 12 + 1)
                 (proc (day ts) (Day t)) * 24
        + proc (hour ts) (Hour t)) * 60
      + proc (minute ts) (Minute t)) * 60
     + proc (second ts) (Second t)"
    unfolding c_def candidate_def by (rule wallSeconds_Date)
  have z: "s' + 0 div 1000000000 = s'" by simp
  have cl: "Second c = s' mod 60" "Minute c = (mi' + s' div 60) mod 60"
    "Hour c = (h' + (mi' + s' div 60) div 60) mod 24"
    unfolding c_def candidate_def Date_clock h'_def[symmetric] mi'_def[symmetric]
      s'_def[symmetric] z
    by (rule refl)+
  have p: "active df \<and> \<not> absolute df \<and> \<not> fromEnd df \<longrightarrow> proc df x = x + val df"
    by (simp add: proc_relative)
  have ex: "\<not> empty ts \<Longrightarrow>
      E = phase3 ts (if fromEnd (day ts)
                   then AddDate c 0 1 (- proc (day ts) (Day t) - val (day ts) + 1)
                   else c)"
    unfolding E_def Exec_phase3 afterDayFromEnd_def c_def by simp
  have tod: "validTime E" "Second E = Second c" "Minute E = Minute c" "Hour E = Hour c"
    if "\<not> empty ts"
    using Exec_timeOfDay[OF that, of t] unfolding timeOfDay_def E_def c_def by simp_all
  have rel: "wallSeconds E =
           wallSeconds c
           + 86400 * ((if active (week ts) then 7 * val (week ts) else 0)
                      + (if active (weekday ts) then val (weekday ts) - Weekday c else 0))"
    if ne: "\<not> empty ts" and nf: "\<not> fromEnd (day ts)"
      and nw: "\<not> (active (week ts) \<and> (fromBegin (week ts) \<or> fromEnd (week ts) \<or> absolute (week ts)))"
  proof -
    define k where "k = (if active (week ts) then 7 * val (week ts) else 0)
                      + (if active (weekday ts) then val (weekday ts) - Weekday c else 0)"
    have "E = phase3 ts c" using ex[OF ne] nf by simp
    then have "absDay E = absDay c + k"
      unfolding k_def using phase3_relative_absDay[OF vc nw] by simp
    then have "wallSeconds E = wallSeconds c + 86400 * k"
      unfolding wallSeconds_def tod(2-4)[OF ne] by (simp add: algebra_simps)
    then show ?thesis unfolding k_def .
  qed
  have main: "\<not> empty ts \<longrightarrow>
      E = phase3 ts (if fromEnd (day ts)
                   then AddDate c 0 1 (- proc (day ts) (Day t) - val (day ts) + 1)
                   else c) \<and>
      validTime E \<and> Second E = s' mod 60 \<and> Minute E = (mi' + s' div 60) mod 60 \<and>
      Hour E = (h' + (mi' + s' div 60) div 60) mod 24 \<and>
      (\<not> fromEnd (day ts) \<and>
       \<not> (active (week ts) \<and> (fromBegin (week ts) \<or> fromEnd (week ts) \<or> absolute (week ts)))
       \<longrightarrow>
         wallSeconds E =
           wallSeconds c
           + 86400 * ((if active (week ts) then 7 * val (week ts) else 0)
                      + (if active (weekday ts) then val (weekday ts) - Weekday c else 0)))"
    using ex tod rel unfolding cl[symmetric] by blast
  from vc w main p overflow_examples day_from_end_week_example(5,6) show ?thesis
    unfolding c_def E_def h'_def mi'_def s'_def by blast
qed

theorem relative_overflow_is_carried_witness:
  "\<not> empty (zeroTimeShift\<lparr>year := relPart 1, month := relPart 22, day := relPart 33,
        week := relPart 2, hour := relPart 66, minute := relPart 200,
        second := relPart 300\<rparr>) \<and>
   fst (New ''Y+1 M+22 D+33 W+2 h+66 m+200 s+300'' False emptyCache) =
     (Some (zeroTimeShift\<lparr>year := relPart 1, month := relPart 22, day := relPart 33,
        week := relPart 2, hour := relPart 66, minute := relPart 200,
        second := relPart 300\<rparr>), None) \<and>
   active (relPart 22) \<and> \<not> absolute (relPart 22) \<and> \<not> fromEnd (relPart 22) \<and>
   proc (relPart 22) 6 = 6 + 22 \<and>
   candidate (zeroTimeShift\<lparr>year := relPart 1, month := relPart 22, day := relPart 33,
        week := relPart 2, hour := relPart 66, minute := relPart 200,
        second := relPart 300\<rparr>) (utcTime 2020 6 13 14 55 22) = utcTime 2023 5 19 12 20 22 \<and>
   wallSeconds (utcTime 2023 5 19 12 20 22) =
     ((dayNumber 2023 4 46 * 24 + 80) * 60 + 255) * 60 + 322 \<and>
   Exec (zeroTimeShift\<lparr>year := relPart 1, month := relPart 22, day := relPart 33,
        week := relPart 2, hour := relPart 66, minute := relPart 200,
        second := relPart 300\<rparr>) (utcTime 2020 6 13 14 55 22) = utcTime 2023 6 2 12 20 22 \<and>
   Second (utcTime 2023 6 2 12 20 22) = 322 mod 60 \<and>
   Minute (utcTime 2023 6 2 12 20 22) = (255 + 322 div 60) mod 60 \<and>
   Hour (utcTime 2023 6 2 12 20 22) = (80 + (255 + 322 div 60) div 60) mod 24 \<and>
   wallSeconds (utcTime 2023 6 2 12 20 22) =
     wallSeconds (utcTime 2023 5 19 12 20 22) + 86400 * (7 * 2 + 0)"
proof -
  let ?ts = "zeroTimeShift\<lparr>year := relPart 1, month := relPart 22, day := relPart 33,
        week := relPart 2, hour := relPart 66, minute := relPart 200,
        second := relPart 300\<rparr>"
  let ?t = "utcTime 2020 6 13 14 55 22"
  have n: "fst (New ''Y+1 M+22 D+33 W+2 h+66 m+200 s+300'' False emptyCache) = (Some ?ts, None)"
    by (simp add: New_cache_ok cache_ok_emptyCache carry_week_example(1))
  have ne: "\<not> empty ?ts"
    by (simp add: zeroTimeShift_def)
  have h: "\<not> fromEnd (day ?ts) \<and>
       \<not> (active (week ?ts) \<and> (fromBegin (week ?ts) \<or> fromEnd (week ?ts) \<or> absolute (week ?ts)))"
    by (simp add: relPart_def)
  have a: "active (week ?ts)" "val (week ?ts) = 2" "\<not> active (weekday ?ts)"
    by (simp_all add: relPart_def zeroTimeShift_def zeroPartDef_def)
  have r: "active (relPart 22) \<and> \<not> absolute (relPart 22) \<and> \<not> fromEnd (relPart 22)"
    by (simp add: relPart_def)
  have p: "proc (year ?ts) (Year ?t) = 2021" "proc (month ?ts) (Month ?t) = 28"
      "proc (day ?ts) (Day ?t) = 46" "proc (hour ?ts) (Hour ?t) = 80"
      "proc (minute ?ts) (Minute ?t) = 255" "proc (second ?ts) (Second ?t) = 322"
    by (simp_all add: proc_def relPart_def utcTime_def)
  have m: "(2021::int) + (28 - 1) div 12 = 2023" "((28::int) - 1) mod 12 + 1 = 4"
    by simp_all
  note c = carry_week_example(3)
  note e = carry_week_example(2)
  note T = relative_overflow_is_carried [of ?ts ?t "relPart 22" 6, unfolded p m c e]
  from T have w: "wallSeconds (utcTime 2023 5 19 12 20 22) =
      ((dayNumber 2023 4 46 * 24 + 80) * 60 + 255) * 60 + 322"
    by blast
  from T ne have k: "Second (utcTime 2023 6 2 12 20 22) = 322 mod 60"
    "Minute (utcTime 2023 6 2 12 20 22) = (255 + 322 div 60) mod 60"
    "Hour (utcTime 2023 6 2 12 20 22) = (80 + (255 + 322 div 60) div 60) mod 24"
    by blast+
  from T ne h have "wallSeconds (utcTime 2023 6 2 12 20 22) =
      wallSeconds (utcTime 2023 5 19 12 20 22)
      + 86400 * ((if active (week ?ts) then 7 * val (week ?ts) else 0)
                 + (if active (weekday ?ts)
                    then val (weekday ?ts) - Weekday (utcTime 2023 5 19 12 20 22) else 0))"
    by blast
  then have s: "wallSeconds (utcTime 2023 6 2 12 20 22) =
      wallSeconds (utcTime 2023 5 19 12 20 22) + 86400 * (7 * 2 + 0)"
    unfolding a(2) using a(1,3) by (simp only: if_True if_False)
  from T r have q: "proc (relPart 22) 6 = 6 + val (relPart 22)" by blast
  have q': "proc (relPart 22) 6 = 6 + 22" unfolding q by (simp add: relPart_def)
  show ?thesis
    using ne n r q' c w e k s by blast
qed

text \<open>
  The example of the claim as stated: without a clause for the year the pattern leaves
  the result in 2022, not in 2023.
\<close>

theorem relative_overflow_example_counterexample:
  "shiftBy ''M+22 D+33 h+66 m+200 s+300'' (utcTime 2020 6 13 14 55 22) =
     Some (utcTime 2022 5 19 12 20 22) \<and>
   utcTime 2022 5 19 12 20 22 \<noteq> utcTime 2023 5 19 12 20 22"
  using overflow_examples(2) by (simp add: utcTime_def)

end
